theory Spec2Isabelle
  imports Complex_Main "HOL-Library.Sublist"
begin

section \<open>Data model (src/aio/interfaces.py)\<close>

text \<open>
  Python objects that the loop only passes around are kept abstract: a callable is
  known by its identity (\<open>cb\<close>), a \<open>Handle\<close> object by its address in the heap
  (\<open>href\<close>), a \<open>Networking\<close> instance by its identity. Time is a Python float; it
  is modelled by a real number, so rounding is outside this development.
\<close>

type_synonym cb = nat
type_synonym href = nat
type_synonym networking = nat

datatype pyval = PNone | PInt int | PStr string

type_synonym kwargs = "(string \<times> pyval) list"

text \<open>
  \<^verbatim>\<open>@dataclasses.dataclass class Handle\<close>: five fields, and \<open>cancel\<close>, which
  assigns the flag.
\<close>

record Handle =
  "when" :: "real option"
  callback :: cb
  args :: "pyval list"
  cancelled :: bool
  "context" :: kwargs

definition cancel :: "Handle \<Rightarrow> Handle" where
  "cancel h = h\<lparr>cancelled := True\<rparr>"

text \<open>
  What a callback can raise. \<open>Exception\<close> stands for any instance of a subclass of
  Python's \<open>Exception\<close>, \<open>BaseException\<close> for one that is not (\<open>SystemExit\<close> and
  the like).

  Modelled from the spec: \<open>aio.exceptions.KeyboardCanceled\<close> is not among the sources;
  the specification calls it the interrupt-driven cancellation that "uniquely propagates
  out of step and run", so it is not an \<open>Exception\<close>.
\<close>

datatype exn = Exception string | BaseException string | KeyboardCanceled

fun is_Exception :: "exn \<Rightarrow> bool" where
  "is_Exception (Exception _) = True"
| "is_Exception (BaseException _) = False"
| "is_Exception KeyboardCanceled = False"

section \<open>Collaborators of the loop\<close>

subsection \<open>Clock\<close>

text \<open>
  \<open>Clock\<close> is an interface (\<open>now\<close>, \<open>resolution\<close>). Each call of \<open>now()\<close> may
  return another value, so the clock is an oracle: \<open>now_at c n\<close> is what the \<open>n\<close>-th
  call returns, and \<open>reads c\<close> counts the calls made so far.
\<close>

record Clock =
  now_at :: "nat \<Rightarrow> real"
  reads :: nat
  resolution :: real

subsection \<open>Timer scheduler\<close>

text \<open>
  Modelled from the spec: \<open>aio.components.scheduler.Scheduler\<close> is not among the
  sources. Section 4.2: entries are kept in a min-heap keyed by (deadline, sequence);
  a handle with no deadline is treated as deadline \<open>-\<infinity>\<close>; \<open>pop_pending t\<close>
  removes and returns, in heap order, every entry whose deadline is at most \<open>t\<close>,
  dropping cancelled entries silently; \<open>next_event\<close> discards cancelled entries at the
  top and returns the deadline of the minimum entry. The heap is represented by the list
  of its entries in heap order.
\<close>

datatype deadline = NegInf | At real

fun deadline_of :: "real option \<Rightarrow> deadline" where
  "deadline_of None = NegInf"
| "deadline_of (Some t) = At t"

fun deadline_le :: "deadline \<Rightarrow> deadline \<Rightarrow> bool" where
  "deadline_le NegInf _ = True"
| "deadline_le (At x) NegInf = False"
| "deadline_le (At x) (At y) = (x \<le> y)"

type_synonym entry = "deadline \<times> nat \<times> href"

fun key_le :: "entry \<Rightarrow> entry \<Rightarrow> bool" where
  "key_le (d1, s1, _) (d2, s2, _) = (if d1 = d2 then s1 \<le> s2 else deadline_le d1 d2)"

fun insert_entry :: "entry \<Rightarrow> entry list \<Rightarrow> entry list" where
  "insert_entry e [] = [e]"
| "insert_entry e (x # xs) = (if key_le x e then x # insert_entry e xs else e # x # xs)"

fun take_due :: "real \<Rightarrow> (href \<Rightarrow> Handle) \<Rightarrow> entry list \<Rightarrow> href list \<times> entry list" where
  "take_due t H [] = ([], [])"
| "take_due t H ((d, s, h) # xs) =
     (if deadline_le d (At t)
      then (case take_due t H xs of
              (due, rest) \<Rightarrow> (if cancelled (H h) then due else h # due, rest))
      else ([], (d, s, h) # xs))"

fun drop_cancelled :: "(href \<Rightarrow> Handle) \<Rightarrow> entry list \<Rightarrow> entry list" where
  "drop_cancelled H [] = []"
| "drop_cancelled H ((d, s, h) # xs) =
     (if cancelled (H h) then drop_cancelled H xs else (d, s, h) # xs)"

record Scheduler =
  queue :: "entry list"
  sequence :: nat

subsection \<open>I/O selector\<close>

text \<open>
  Modelled from the spec: the selector backend is not among the sources. Section 4.3:
  \<open>select(timeout)\<close> returns a batch of (callback, fd, fired events). What the operating
  system reports is an oracle, the list \<open>ready\<close> of the batches that successive calls
  return; \<open>watches\<close> are the registrations (fd, event mask, callback). A call is
  taken to return: with timeout \<open>None\<close> that needs an event or a wakeup from another
  thread, which the oracle stands for.
\<close>

type_synonym fired = "cb \<times> int \<times> int"

record IOSelector =
  watches :: "(int \<times> int \<times> cb) list"
  ready :: "fired list list"

subsection \<open>Context variables\<close>

text \<open>
  A \<open>contextvars.Context\<close>: the slot of the variable \<open>_running_loop\<close> (holding the
  identity of a loop, when set) and the other context variables.
\<close>

record Context =
  running_loop :: "nat option"
  vars :: "string \<Rightarrow> pyval option"

section \<open>The world the loop runs in\<close>

text \<open>
  The fields of \<open>BaseEventLoop\<close> (\<open>_scheduler\<close>, \<open>_selector\<close>, \<open>_clock\<close>,
  \<open>_cached_networking\<close>), the heap of \<open>Handle\<close> objects (handles are shared and
  mutable: \<open>cancel\<close> on a reference is seen by every holder) with the next unused
  object identity, the current context of the thread, and the variable \<open>received_fut\<close>
  of \<open>run\<close> with the outcome that the future handed to \<open>receive_result\<close> stores.
\<close>

record world =
  scheduler :: Scheduler
  selector :: IOSelector
  clock :: Clock
  cached_networking :: "networking option"
  heap :: "href \<Rightarrow> Handle"
  next_ref :: href
  current_context :: Context
  received_fut :: "(exn + pyval) option"

text \<open>
  The identity of the loop object (\<open>self\<close>), and the code the loop calls but does not
  contain, as parameters: what each callable does when called (it may change the world,
  through the loop's API or otherwise, and may raise), the exception handler given to
  the constructor, what \<open>aio.utils.MeasureElapsed\<close> does to the clock (entering,
  \<open>get_elapsed\<close>, leaving; constructing one is taken to read nothing), the networking
  factory and the exit of the context manager it returns, and \<open>aio.future._create_task\<close>
  together with \<open>add_callback\<close>. The handler and the measuring are taken to return
  normally, as are clock, scheduler, selector and logger; logging has no effect on the
  world and is left out.
\<close>

record env =
  loop_id :: nat
  prog :: "cb \<Rightarrow> pyval list \<Rightarrow> world \<Rightarrow> exn option \<times> world"
  exception_handler :: "exn \<Rightarrow> cb \<Rightarrow> kwargs \<Rightarrow> world \<Rightarrow> world"
  measure_enter :: "Clock \<Rightarrow> Clock"
  measure_get_elapsed :: "Clock \<Rightarrow> Clock"
  measure_exit :: "Clock \<Rightarrow> Clock"
  networking_factory :: "world \<Rightarrow> networking \<times> world"
  networking_exit :: "networking \<Rightarrow> world \<Rightarrow> world"
  create_task :: "world \<Rightarrow> world"

text \<open>
  What a run of loop code shows to an observer, in order: the clock readings the loop
  takes, its calls to the scheduler and the selector with their results, the element
  each dispatch loop has reached (a handle found cancelled and skipped, a handle about
  to be invoked, a fired I/O registration), every call of a callback (with the context
  it is entered in) and every call of the exception handler (with the keyword arguments
  it gets besides \<open>cb\<close>).
\<close>

datatype event =
    Now real
  | PopPending real "href list"
  | NextEvent "deadline option"
  | Select "real option" "fired list"
  | Skipped href
  | Invoked href
  | Fired cb int int
  | Call cb "pyval list" Context
  | Report exn cb kwargs

subsection \<open>Operations of the collaborators on the world\<close>

text \<open>\<open>Clock.now()\<close>: the next reading of the oracle.\<close>

definition clock_now :: "world \<Rightarrow> real \<times> world" where
  "clock_now W =
     (let c = clock W in (now_at c (reads c), W\<lparr>clock := c\<lparr>reads := Suc (reads c)\<rparr>\<rparr>))"

definition on_clock :: "(Clock \<Rightarrow> Clock) \<Rightarrow> world \<Rightarrow> world" where
  "on_clock f W = W\<lparr>clock := f (clock W)\<rparr>"

text \<open>
  Modelled from the spec: \<open>Scheduler.enqueue\<close>, \<open>pop_pending\<close> and \<open>next_event\<close>
  (section 4.2) and \<open>IOSelector.select\<close> (section 4.3), none of them among the
  sources, as operations on the world. \<open>enqueue\<close> reads the deadline of the handle
  and gives the entry the next sequence number.
\<close>

definition enqueue :: "href \<Rightarrow> world \<Rightarrow> world" where
  "enqueue h W =
     (let s = scheduler W
      in W\<lparr>scheduler :=
             \<lparr>queue = insert_entry (deadline_of (when (heap W h)), sequence s, h) (queue s),
              sequence = Suc (sequence s)\<rparr>\<rparr>)"

definition pop_pending :: "real \<Rightarrow> world \<Rightarrow> href list \<times> world" where
  "pop_pending up_to W =
     (case take_due up_to (heap W) (queue (scheduler W)) of
        (due, rest) \<Rightarrow> (due, W\<lparr>scheduler := (scheduler W)\<lparr>queue := rest\<rparr>\<rparr>))"

definition next_event :: "world \<Rightarrow> deadline option \<times> world" where
  "next_event W =
     (let q = drop_cancelled (heap W) (queue (scheduler W))
      in (case q of [] \<Rightarrow> None | (d, _, _) # _ \<Rightarrow> Some d,
          W\<lparr>scheduler := (scheduler W)\<lparr>queue := q\<rparr>\<rparr>))"

definition select :: "real option \<Rightarrow> world \<Rightarrow> fired list \<times> world" where
  "select timeout W =
     (case ready (selector W) of
        [] \<Rightarrow> ([], W)
      | batch # later \<Rightarrow> (batch, W\<lparr>selector := (selector W)\<lparr>ready := later\<rparr>\<rparr>))"

text \<open>\<open>Handle.cancel\<close> on a reference: the object in the heap is updated in place.\<close>

definition cancel_ref :: "href \<Rightarrow> world \<Rightarrow> world" where
  "cancel_ref h W = W\<lparr>heap := (heap W)(h := cancel (heap W h))\<rparr>"

section \<open>BaseEventLoop (src/aio/loop/pure.py)\<close>

subsection \<open>call_soon, call_later\<close>

text \<open>
  \<open>Handle(when, target, args, False, context or {})\<close> allocates a new object; the
  reference is returned. \<open>context or {}\<close> is the mapping itself, or the empty one
  for \<open>None\<close>.
\<close>

definition new_handle ::
  "real option \<Rightarrow> cb \<Rightarrow> pyval list \<Rightarrow> kwargs option \<Rightarrow> world \<Rightarrow> href \<times> world" where
  "new_handle w target xs ctx W =
     (let r = next_ref W;
          obj = \<lparr>when = w, callback = target, args = xs, cancelled = False,
                 context = (case ctx of None \<Rightarrow> [] | Some m \<Rightarrow> m)\<rparr>
      in (r, W\<lparr>heap := (heap W)(r := obj), next_ref := Suc r\<rparr>))"

definition call_soon :: "cb \<Rightarrow> pyval list \<Rightarrow> kwargs option \<Rightarrow> world \<Rightarrow> href \<times> world" where
  "call_soon target xs ctx W =
     (case new_handle None target xs ctx W of (h, W1) \<Rightarrow> (h, enqueue h W1))"

definition call_later ::
  "real \<Rightarrow> cb \<Rightarrow> pyval list \<Rightarrow> kwargs option \<Rightarrow> world \<Rightarrow> href \<times> world" where
  "call_later timeout target xs ctx W =
     (if timeout = 0 then call_soon target xs ctx W
      else (case clock_now W of
              (now, W1) \<Rightarrow>
                (case new_handle (Some (now + timeout)) target xs ctx W1 of
                   (h, W2) \<Rightarrow> (h, enqueue h W2))))"

subsection \<open>Invoking one callback\<close>

text \<open>
  \<open>_invoke_callback_within_context\<close>: \<open>token = _running_loop.set(self)\<close>, the
  call, the two \<open>except\<close> clauses (both call the handler with \<open>cb=callback\<close> and
  the keyword arguments \<open>callback_context\<close>; only the second re-raises), and
  \<open>finally: _running_loop.reset(token)\<close>, which puts the old value of the slot back.
  The result is the trace, the exception that leaves the function (if any) and the world.
\<close>

definition invoke_callback_within_context ::
  "env \<Rightarrow> cb \<Rightarrow> pyval list \<Rightarrow> kwargs \<Rightarrow> world \<Rightarrow> event list \<times> exn option \<times> world" where
  "invoke_callback_within_context E target xs callback_context W =
     (let token = running_loop (current_context W);
          W1 = W\<lparr>current_context := (current_context W)\<lparr>running_loop := Some (loop_id E)\<rparr>\<rparr>;
          reset = (\<lambda>V. V\<lparr>current_context := (current_context V)\<lparr>running_loop := token\<rparr>\<rparr>)
      in (case prog E target xs W1 of
            (None, W2) \<Rightarrow> ([Call target xs (current_context W1)], None, reset W2)
          | (Some err, W2) \<Rightarrow>
              ([Call target xs (current_context W1), Report err target callback_context],
               (if is_Exception err then None else Some err),
               reset (exception_handler E err target callback_context W2))))"

text \<open>
  \<open>_invoke_callback\<close>: \<open>cv_context.run(...)\<close> makes \<open>cv_context\<close> the current
  context for the duration of the call; what the call changes stays in \<open>cv_context\<close>
  (returned here), and the context that was current before is current again afterwards.
\<close>

definition invoke_callback ::
  "env \<Rightarrow> Context \<Rightarrow> cb \<Rightarrow> pyval list \<Rightarrow> kwargs \<Rightarrow> world \<Rightarrow>
     event list \<times> exn option \<times> Context \<times> world" where
  "invoke_callback E cv_context target xs callback_context W =
     (case invoke_callback_within_context E target xs callback_context
             (W\<lparr>current_context := cv_context\<rparr>) of
        (tr, raised, W1) \<Rightarrow>
          (tr, raised, current_context W1, W1\<lparr>current_context := current_context W\<rparr>))"

text \<open>
  \<open>_invoke_handle\<close>: the flag is read from the object at this moment; the call passes
  \<open>handle.callback\<close> and \<open>*handle.args\<close> and no keyword argument.
\<close>

definition invoke_handle ::
  "env \<Rightarrow> Context \<Rightarrow> href \<Rightarrow> world \<Rightarrow> event list \<times> exn option \<times> Context \<times> world" where
  "invoke_handle E cv_context h W =
     (if cancelled (heap W h) then ([Skipped h], None, cv_context, W)
      else (case invoke_callback E cv_context (callback (heap W h)) (args (heap W h)) [] W of
              (tr, rest) \<Rightarrow> (Invoked h # tr, rest)))"

subsection \<open>The loops of run_step\<close>

text \<open>
  \<open>for handle in ...: self._invoke_handle(cv_context, handle)\<close>; an exception that
  leaves a call ends the loop.
\<close>

fun invoke_handles ::
  "env \<Rightarrow> Context \<Rightarrow> href list \<Rightarrow> world \<Rightarrow> event list \<times> exn option \<times> Context \<times> world" where
  "invoke_handles E cv [] W = ([], None, cv, W)"
| "invoke_handles E cv (h # hs) W =
     (case invoke_handle E cv h W of
        (tr, Some e, cv1, W1) \<Rightarrow> (tr, Some e, cv1, W1)
      | (tr, None, cv1, W1) \<Rightarrow>
          (case invoke_handles E cv1 hs W1 of
             (tr2, raised, cv2, W2) \<Rightarrow> (tr @ tr2, raised, cv2, W2)))"

text \<open>
  \<open>for callback, fd, events in selector_callbacks\<close>: the callback gets \<open>fd\<close> and
  \<open>events\<close>; the handler would get \<open>place\<close>, \<open>fd\<close> and \<open>events\<close>.
\<close>

definition io_context :: "int \<Rightarrow> int \<Rightarrow> kwargs" where
  "io_context fd events =
     [(''place'', PStr ''IO-callback''), (''fd'', PInt fd), (''events'', PInt events)]"

fun invoke_io_callbacks ::
  "env \<Rightarrow> Context \<Rightarrow> fired list \<Rightarrow> world \<Rightarrow> event list \<times> exn option \<times> Context \<times> world" where
  "invoke_io_callbacks E cv [] W = ([], None, cv, W)"
| "invoke_io_callbacks E cv ((target, fd, events) # rest) W =
     (case invoke_callback E cv target [PInt fd, PInt events] (io_context fd events) W of
        (tr, Some e, cv1, W1) \<Rightarrow> (Fired target fd events # tr, Some e, cv1, W1)
      | (tr, None, cv1, W1) \<Rightarrow>
          (case invoke_io_callbacks E cv1 rest W1 of
             (tr2, raised, cv2, W2) \<Rightarrow> (Fired target fd events # tr @ tr2, raised, cv2, W2)))"

text \<open>
  \<open>with measure_callbacks: <loop>; debug(elapsed=measure_callbacks.get_elapsed())\<close>:
  the measuring reads the clock; when the loop raises, \<open>get_elapsed\<close> is skipped and
  the exception passes through the \<open>with\<close>.
\<close>

definition measured ::
  "env \<Rightarrow> (world \<Rightarrow> event list \<times> exn option \<times> Context \<times> world) \<Rightarrow> world \<Rightarrow>
     event list \<times> exn option \<times> Context \<times> world" where
  "measured E body W =
     (case body (on_clock (measure_enter E) W) of
        (tr, None, cv, W1) \<Rightarrow>
          (tr, None, cv, on_clock (measure_exit E) (on_clock (measure_get_elapsed E) W1))
      | (tr, Some e, cv, W1) \<Rightarrow> (tr, Some e, cv, on_clock (measure_exit E) W1))"

subsection \<open>run_step\<close>

text \<open>
  Lines 127 to 134: the timeout for \<open>select\<close>. The last branch reads the clock again.
  A deadline \<open>-\<infinity>\<close> gives a negative difference, hence 0.
\<close>

definition wait_events_for ::
  "href list \<Rightarrow> deadline option \<Rightarrow> world \<Rightarrow> event list \<times> real option \<times> world" where
  "wait_events_for early_callbacks next_event_at W =
     (if length early_callbacks > 0 then ([], Some 0, W)
      else (case next_event_at of
              None \<Rightarrow> ([], None, W)
            | Some d \<Rightarrow>
                (case clock_now W of
                   (now, W1) \<Rightarrow>
                     ([Now now],
                      Some (case d of
                              NegInf \<Rightarrow> 0
                            | At t \<Rightarrow> (if t - now < 0 then 0 else t - now)),
                      W1))))"

text \<open>
  Lines 119 to 158: up to the capture of \<open>cv_context\<close>. Returns the trace so far, the
  early batch, the batch of the selector, \<open>end_at\<close> and the captured context.
\<close>

definition step_wait ::
  "env \<Rightarrow> world \<Rightarrow> event list \<times> href list \<times> fired list \<times> real \<times> Context \<times> world" where
  "step_wait E W =
     (case clock_now W of
        (at_start, W1) \<Rightarrow>
     (let clock_resolution = resolution (clock W1) in
      case pop_pending (at_start + clock_resolution) W1 of
        (early_callbacks, W2) \<Rightarrow>
     (case next_event W2 of
        (next_event_at, W3) \<Rightarrow>
     (case wait_events_for early_callbacks next_event_at W3 of
        (tr_wait, wait_events, W4) \<Rightarrow>
     (case select wait_events (on_clock (measure_enter E) W4) of
        (selector_callbacks, W5) \<Rightarrow>
     (case clock_now (on_clock (measure_exit E) (on_clock (measure_get_elapsed E) W5)) of
        (after_select, W6) \<Rightarrow>
          ([Now at_start, PopPending (at_start + clock_resolution) early_callbacks,
            NextEvent next_event_at] @ tr_wait @
           [Select wait_events selector_callbacks, Now after_select],
           early_callbacks, selector_callbacks, after_select + clock_resolution,
           current_context W6, W6)))))))"

text \<open>
  Lines 160 to 199: early callbacks (measured only when there are any), I/O callbacks,
  then \<open>pop_pending(end_at)\<close> and the late callbacks, then the clock reading of the last
  log line.
\<close>

definition step_dispatch ::
  "env \<Rightarrow> href list \<Rightarrow> fired list \<Rightarrow> real \<Rightarrow> Context \<Rightarrow> world \<Rightarrow>
     event list \<times> exn option \<times> world" where
  "step_dispatch E early_callbacks selector_callbacks end_at cv_context W =
     (case (if early_callbacks = [] then ([], None, cv_context, W)
            else measured E (invoke_handles E cv_context early_callbacks) W) of
        (tr1, Some e, cv1, W1) \<Rightarrow> (tr1, Some e, W1)
      | (tr1, None, cv1, W1) \<Rightarrow>
     (case measured E (invoke_io_callbacks E cv1 selector_callbacks) W1 of
        (tr2, Some e, cv2, W2) \<Rightarrow> (tr1 @ tr2, Some e, W2)
      | (tr2, None, cv2, W2) \<Rightarrow>
     (case pop_pending end_at W2 of
        (late_callbacks, W3) \<Rightarrow>
     (case measured E (invoke_handles E cv2 late_callbacks) W3 of
        (tr3, Some e, cv3, W4) \<Rightarrow>
          (tr1 @ tr2 @ PopPending end_at late_callbacks # tr3, Some e, W4)
      | (tr3, None, cv3, W4) \<Rightarrow>
          (case clock_now W4 of
             (at_end, W5) \<Rightarrow>
               (tr1 @ tr2 @ PopPending end_at late_callbacks # tr3 @ [Now at_end],
                None, W5))))))"

definition run_step :: "env \<Rightarrow> world \<Rightarrow> event list \<times> exn option \<times> world" where
  "run_step E W =
     (case step_wait E W of
        (tr0, early_callbacks, selector_callbacks, end_at, cv_context, W1) \<Rightarrow>
          (case step_dispatch E early_callbacks selector_callbacks end_at cv_context W1 of
             (tr, raised, W2) \<Rightarrow> (tr0 @ tr, raised, W2)))"

subsection \<open>create_networking\<close>

text \<open>
  The asynchronous context manager, as its two halves: entering runs the generator up to
  its \<open>yield\<close>, leaving resumes it. A scope that found the cache filled has nothing to
  do on leaving; the scope that called the factory clears the cache (\<open>finally\<close>) and
  then leaves the \<open>with\<close> of the factory's context manager.
\<close>

datatype scope = Cached | Created

definition create_networking_enter :: "env \<Rightarrow> world \<Rightarrow> (networking \<times> scope) \<times> world" where
  "create_networking_enter E W =
     (case cached_networking W of
        Some n \<Rightarrow> ((n, Cached), W)
      | None \<Rightarrow>
          (case networking_factory E W of
             (n, W1) \<Rightarrow> ((n, Created), W1\<lparr>cached_networking := Some n\<rparr>)))"

definition create_networking_exit :: "env \<Rightarrow> networking \<times> scope \<Rightarrow> world \<Rightarrow> world" where
  "create_networking_exit E entered W =
     (case entered of
        (n, Cached) \<Rightarrow> W
      | (n, Created) \<Rightarrow> networking_exit E n (W\<lparr>cached_networking := None\<rparr>))"

text \<open>
  A client of \<open>create_networking\<close>: \<open>k\<close> scopes entered one after another with
  none of them left in between (nested \<open>async with\<close> blocks, or tasks that overlap).
  The result lists what each scope was handed.
\<close>

fun enter_times :: "env \<Rightarrow> nat \<Rightarrow> world \<Rightarrow> (networking \<times> scope) list \<times> world" where
  "enter_times E 0 W = ([], W)"
| "enter_times E (Suc k) W =
     (case create_networking_enter E W of
        (got, W1) \<Rightarrow>
          (case enter_times E k W1 of (others, W2) \<Rightarrow> (got # others, W2)))"

subsection \<open>run\<close>

text \<open>
  \<open>for _ in count(): run_step(); if received_fut: break\<close>. The loop has no bound, so
  the model takes fuel: \<open>Pending\<close> is the answer when the fuel is used up. An exception
  that leaves \<open>run_step\<close> leaves the loop (\<open>except KeyboardCanceled: raise\<close> re-raises,
  and nothing else is caught). The traces of the steps are returned step by step. After
  the loop \<open>received_fut.result()\<close> returns the stored value or raises the stored error.
  The interrupt handler that \<open>run\<close> installs raises \<open>KeyboardCanceled\<close> in whatever
  code is running when the signal arrives; here it shows as a callback raising it.
\<close>

datatype outcome = Pending | Raised exn | Returned pyval

fun run_steps :: "env \<Rightarrow> nat \<Rightarrow> world \<Rightarrow> event list list \<times> outcome \<times> world" where
  "run_steps E 0 W = ([], Pending, W)"
| "run_steps E (Suc fuel) W =
     (case run_step E W of
        (tr, Some e, W1) \<Rightarrow> ([tr], Raised e, W1)
      | (tr, None, W1) \<Rightarrow>
          (case received_fut W1 of
             Some (Inl e) \<Rightarrow> ([tr], Raised e, W1)
           | Some (Inr v) \<Rightarrow> ([tr], Returned v, W1)
           | None \<Rightarrow>
               (case run_steps E fuel W1 of
                  (trs, res, W2) \<Rightarrow> (tr # trs, res, W2))))"

definition run :: "env \<Rightarrow> nat \<Rightarrow> world \<Rightarrow> event list list \<times> outcome \<times> world" where
  "run E fuel W = run_steps E fuel ((create_task E W)\<lparr>received_fut := None\<rparr>)"

section \<open>Reading a trace\<close>

datatype target = Timer href | IO cb int int

fun dispatched :: "event list \<Rightarrow> target list" where
  "dispatched [] = []"
| "dispatched (Skipped h # tr) = Timer h # dispatched tr"
| "dispatched (Invoked h # tr) = Timer h # dispatched tr"
| "dispatched (Fired c fd ev # tr) = IO c fd ev # dispatched tr"
| "dispatched (_ # tr) = dispatched tr"

fun calls :: "event list \<Rightarrow> (cb \<times> pyval list) list" where
  "calls [] = []"
| "calls (Call c xs _ # tr) = (c, xs) # calls tr"
| "calls (_ # tr) = calls tr"

fun entered :: "event list \<Rightarrow> Context list" where
  "entered [] = []"
| "entered (Call _ _ cv # tr) = cv # entered tr"
| "entered (_ # tr) = entered tr"

fun reports :: "event list \<Rightarrow> (exn \<times> cb \<times> kwargs) list" where
  "reports [] = []"
| "reports (Report e c kw # tr) = (e, c, kw) # reports tr"
| "reports (_ # tr) = reports tr"

fun select_timeouts :: "event list \<Rightarrow> real option list" where
  "select_timeouts [] = []"
| "select_timeouts (Select w _ # tr) = w # select_timeouts tr"
| "select_timeouts (_ # tr) = select_timeouts tr"

fun pops :: "event list \<Rightarrow> (real \<times> href list) list" where
  "pops [] = []"
| "pops (PopPending t hs # tr) = (t, hs) # pops tr"
| "pops (_ # tr) = pops tr"

text \<open>The dispatches that go on to a call: handles not found cancelled, and fired I/O.\<close>

fun invocations :: "event list \<Rightarrow> nat" where
  "invocations [] = 0"
| "invocations (Invoked _ # tr) = Suc (invocations tr)"
| "invocations (Fired _ _ _ # tr) = Suc (invocations tr)"
| "invocations (_ # tr) = invocations tr"

fun fired_target :: "fired \<Rightarrow> target" where
  "fired_target (c, fd, ev) = IO c fd ev"

text \<open>Events of the dispatch loops, as opposed to those of the waiting part of a step.\<close>

fun dispatch_event :: "event \<Rightarrow> bool" where
  "dispatch_event (Skipped _) = True"
| "dispatch_event (Invoked _) = True"
| "dispatch_event (Fired _ _ _) = True"
| "dispatch_event (Call _ _ _) = True"
| "dispatch_event (Report _ _ _) = True"
| "dispatch_event _ = False"

text \<open>The exception of the report that ends a trace, when the trace ends with a report.\<close>

fun last_report :: "event list \<Rightarrow> exn option" where
  "last_report [] = None"
| "last_report [Report e c kw] = Some e"
| "last_report [x] = None"
| "last_report (x # y # tr) = last_report (y # tr)"

section \<open>What a dispatch loop guarantees\<close>

text \<open>
  The invariant of the dispatch loops, for a run \<open>res\<close> over the targets \<open>ts\<close> that
  starts in world \<open>W\<close> with the captured context \<open>cv\<close>: the trace holds dispatch
  events only; the current context of the thread is as before; the slot of the running
  loop in the captured context is as before; every callback is entered with the slot set
  to this loop, the first one in the captured context itself; each call belongs to one
  dispatch that was not skipped; the targets are taken in order; without an exception
  all of them are taken and only \<open>Exception\<close>s were reported; an exception that leaves
  is not an \<open>Exception\<close> and is the last thing reported, at the end of the trace.
\<close>

definition dispatch_ok ::
  "env \<Rightarrow> Context \<Rightarrow> world \<Rightarrow> target list \<Rightarrow>
     event list \<times> exn option \<times> Context \<times> world \<Rightarrow> bool" where
  "dispatch_ok E cv W ts res =
     (case res of
        (tr, raised, cv1, W1) \<Rightarrow>
          list_all dispatch_event tr
          \<and> current_context W1 = current_context W
          \<and> running_loop cv1 = running_loop cv
          \<and> list_all (\<lambda>c. running_loop c = Some (loop_id E)) (entered tr)
          \<and> (case entered tr of
                [] \<Rightarrow> cv1 = cv
              | c # _ \<Rightarrow> c = cv\<lparr>running_loop := Some (loop_id E)\<rparr>)
          \<and> length (calls tr) = invocations tr
          \<and> prefix (dispatched tr) ts
          \<and> (case raised of
                None \<Rightarrow>
                  dispatched tr = ts \<and> list_all (\<lambda>r. is_Exception (fst r)) (reports tr)
              | Some e \<Rightarrow>
                  \<not> is_Exception e \<and> last_report tr = Some e
                  \<and> reports tr \<noteq> [] \<and> fst (last (reports tr)) = e
                  \<and> list_all (\<lambda>r. is_Exception (fst r)) (butlast (reports tr))))"

section \<open>The timeout of select as the specification words it\<close>

text \<open>
  \<open>max(0, next_event - now)\<close>, for a deadline that may be \<open>-\<infinity>\<close>.
\<close>

fun remaining :: "deadline \<Rightarrow> real \<Rightarrow> real" where
  "remaining NegInf now = 0"
| "remaining (At t) now = max 0 (t - now)"

text \<open>
  Section 4.7, step 3, as a check of a timeout \<open>w\<close>: 0 when the early batch is
  non-empty; else \<open>None\<close> when there is no next event and no I/O is registered; else
  \<open>max(0, next_event - now)\<close>, which is a number and needs a next event.
\<close>

definition spec_select_timeout ::
  "href list \<Rightarrow> deadline option \<Rightarrow> bool \<Rightarrow> real \<Rightarrow> real option \<Rightarrow> bool" where
  "spec_select_timeout early next_event_at io_registered now w =
     (if early \<noteq> [] then w = Some 0
      else if next_event_at = None \<and> \<not> io_registered then w = None
      else (case next_event_at of
              None \<Rightarrow> False
            | Some d \<Rightarrow> w = Some (remaining d now)))"

section \<open>Example worlds\<close>

definition handle0 :: Handle where
  "handle0 = \<lparr>when = Some 5, callback = 1, args = [PInt 3], cancelled = False,
              context = [(''task'', PStr ''t1'')]\<rparr>"

text \<open>
  A clock whose \<open>n\<close>-th reading is \<open>100 + n\<close>, with resolution 1/2; nothing scheduled,
  nothing registered.
\<close>

definition ex_world :: world where
  "ex_world =
     \<lparr>scheduler = \<lparr>queue = [], sequence = 0\<rparr>,
      selector = \<lparr>watches = [], ready = []\<rparr>,
      clock = \<lparr>now_at = (\<lambda>n. 100 + real n), reads = 0, resolution = 1 / 2\<rparr>,
      cached_networking = None,
      heap = (\<lambda>_. \<lparr>when = None, callback = 0, args = [], cancelled = True, context = []\<rparr>),
      next_ref = 0,
      current_context = \<lparr>running_loop = None, vars = (\<lambda>_. None)\<rparr>,
      received_fut = None\<rparr>"

text \<open>
  Callables: 1 raises an \<open>Exception\<close>; 3 calls \<open>call_soon\<close> with callable 2; 4 raises
  \<open>KeyboardCanceled\<close>; 5 cancels the handle at address 1; every other one returns.
\<close>

definition ex_prog :: "cb \<Rightarrow> pyval list \<Rightarrow> world \<Rightarrow> exn option \<times> world" where
  "ex_prog c xs W =
     (if c = 1 then (Some (Exception ''boom''), W)
      else if c = 3 then (None, snd (call_soon 2 [] None W))
      else if c = 4 then (Some KeyboardCanceled, W)
      else if c = 5 then (None, cancel_ref 1 W)
      else (None, W))"

text \<open>
  A handler that only logs, a \<open>MeasureElapsed\<close> that reads the clock on entering and
  in \<open>get_elapsed\<close>, and a factory that makes a new \<open>Networking\<close> object per call.
\<close>

definition ex_env :: env where
  "ex_env =
     \<lparr>loop_id = 7,
      prog = ex_prog,
      exception_handler = (\<lambda>err c kw W. W),
      measure_enter = (\<lambda>c. c\<lparr>reads := Suc (reads c)\<rparr>),
      measure_get_elapsed = (\<lambda>c. c\<lparr>reads := Suc (reads c)\<rparr>),
      measure_exit = (\<lambda>c. c),
      networking_factory = (\<lambda>W. (next_ref W, W\<lparr>next_ref := Suc (next_ref W)\<rparr>)),
      networking_exit = (\<lambda>n W. W),
      create_task = (\<lambda>W. W)\<rparr>"

text \<open>
  Worlds built with the loop's own API from \<open>ex_world\<close>: an I/O registration with a
  fired event and no timer; a handle whose callback calls \<open>call_soon\<close>; a handle with a
  user context whose callback raises, followed by another handle; a handle whose
  callback cancels the next one; a handle whose callback raises \<open>KeyboardCanceled\<close>,
  followed by another handle; a lone timer five seconds ahead; and a world with an early
  handle, a fired I/O event and a timer that falls due during the step.
\<close>

definition ex_world_io :: world where
  "ex_world_io = ex_world\<lparr>selector := \<lparr>watches = [(3, 1, 2)], ready = [[(2, 3, 1)]]\<rparr>\<rparr>"

definition ex_world_soon :: world where
  "ex_world_soon = snd (call_soon 3 [] None ex_world)"

definition ex_world_raise :: world where
  "ex_world_raise =
     snd (call_soon 2 [] None (snd (call_soon 1 [] (Some [(''task'', PStr ''t1'')]) ex_world)))"

definition ex_world_cancel :: world where
  "ex_world_cancel = snd (call_soon 2 [] None (snd (call_soon 5 [] None ex_world)))"

definition ex_world_interrupt :: world where
  "ex_world_interrupt = snd (call_soon 2 [] None (snd (call_soon 4 [] None ex_world)))"

definition ex_world_timer :: world where
  "ex_world_timer = snd (call_later 5 6 [] None ex_world)"

definition ex_world_mixed :: world where
  "ex_world_mixed =
     (snd (call_later 2 6 [] None (snd (call_soon 2 [] None ex_world))))
       \<lparr>selector := \<lparr>watches = [(3, 1, 8)], ready = [[(8, 3, 1)]]\<rparr>\<rparr>"

section \<open>Properties\<close>

text \<open>The definitions to unfold when a step is evaluated on a concrete world.\<close>

lemmas step_defs = run_step_def step_wait_def step_dispatch_def wait_events_for_def
  measured_def invoke_handle_def invoke_callback_def invoke_callback_within_context_def
  clock_now_def on_clock_def pop_pending_def next_event_def select_def enqueue_def
  call_soon_def call_later_def new_handle_def cancel_ref_def cancel_def io_context_def Let_def

lemmas ex_defs = ex_world_def ex_env_def ex_prog_def ex_world_io_def ex_world_soon_def
  ex_world_raise_def ex_world_cancel_def ex_world_interrupt_def ex_world_timer_def
  ex_world_mixed_def

subsection \<open>Traces and append\<close>

lemma dispatched_append: "dispatched (xs @ ys) = dispatched xs @ dispatched ys"
  by (induction xs rule: dispatched.induct) simp_all

lemma calls_append: "calls (xs @ ys) = calls xs @ calls ys"
  by (induction xs rule: calls.induct) simp_all

lemma entered_append: "entered (xs @ ys) = entered xs @ entered ys"
  by (induction xs rule: entered.induct) simp_all

lemma reports_append: "reports (xs @ ys) = reports xs @ reports ys"
  by (induction xs rule: reports.induct) simp_all

lemma select_timeouts_append:
  "select_timeouts (xs @ ys) = select_timeouts xs @ select_timeouts ys"
  by (induction xs rule: select_timeouts.induct) simp_all

lemma pops_append: "pops (xs @ ys) = pops xs @ pops ys"
  by (induction xs rule: pops.induct) simp_all

lemma invocations_append: "invocations (xs @ ys) = invocations xs + invocations ys"
  by (induction xs rule: invocations.induct) simp_all

lemma select_timeouts_dispatch: "list_all dispatch_event tr \<Longrightarrow> select_timeouts tr = []"
  by (induction tr rule: select_timeouts.induct) simp_all

lemma pops_dispatch: "list_all dispatch_event tr \<Longrightarrow> pops tr = []"
  by (induction tr rule: pops.induct) simp_all

subsection \<open>One callback\<close>

lemma within_context_cases:
  obtains (returns) W2 where
      "prog E target xs (W\<lparr>current_context := (current_context W)\<lparr>running_loop := Some (loop_id E)\<rparr>\<rparr>) = (None, W2)"
      "invoke_callback_within_context E target xs kw W =
         ([Call target xs ((current_context W)\<lparr>running_loop := Some (loop_id E)\<rparr>)], None,
          W2\<lparr>current_context := (current_context W2)\<lparr>running_loop := running_loop (current_context W)\<rparr>\<rparr>)"
  | (raises) err W2 where
      "prog E target xs (W\<lparr>current_context := (current_context W)\<lparr>running_loop := Some (loop_id E)\<rparr>\<rparr>) = (Some err, W2)"
      "invoke_callback_within_context E target xs kw W =
         ([Call target xs ((current_context W)\<lparr>running_loop := Some (loop_id E)\<rparr>),
           Report err target kw],
          (if is_Exception err then None else Some err),
          (exception_handler E err target kw W2)
            \<lparr>current_context := (current_context (exception_handler E err target kw W2))
                \<lparr>running_loop := running_loop (current_context W)\<rparr>\<rparr>)"
proof (cases "prog E target xs (W\<lparr>current_context := (current_context W)\<lparr>running_loop := Some (loop_id E)\<rparr>\<rparr>)")
  case (Pair r W2)
  show ?thesis
  proof (cases r)
    case None
    with Pair show ?thesis
      by (intro returns [of W2]) (simp_all add: invoke_callback_within_context_def Let_def)
  next
    case (Some err)
    with Pair show ?thesis
      by (intro raises [of err W2]) (simp_all add: invoke_callback_within_context_def Let_def)
  qed
qed


lemma last_report_append: "ys \<noteq> [] \<Longrightarrow> last_report (xs @ ys) = last_report ys"
proof (induction xs)
  case Nil
  then show ?case by simp
next
  case (Cons x xs)
  then obtain z zs where "xs @ ys = z # zs" by (cases "xs @ ys") auto
  with Cons show ?case by simp
qed

lemma last_report_Some_nonempty: "last_report tr = Some e \<Longrightarrow> tr \<noteq> []"
  by auto

lemma last_report_Cons: "tr \<noteq> [] \<Longrightarrow> last_report (x # tr) = last_report tr"
  by (cases tr) simp_all

subsection \<open>The invariant\<close>

lemma invoke_handle_ok: "dispatch_ok E cv W [Timer h] (invoke_handle E cv h W)"
proof (cases "cancelled (heap W h)")
  case True
  then show ?thesis by (simp add: invoke_handle_def dispatch_ok_def)
next
  case False
  show ?thesis
    by (rule within_context_cases
          [of E "callback (heap W h)" "args (heap W h)" "W\<lparr>current_context := cv\<rparr>" "[]"])
       (simp_all add: False invoke_handle_def invoke_callback_def dispatch_ok_def)
qed

lemma invoke_io_ok:
  "case invoke_callback E cv target [PInt fd, PInt ev] (io_context fd ev) W of
     (tr, rest) \<Rightarrow> dispatch_ok E cv W [IO target fd ev] (Fired target fd ev # tr, rest)"
  by (rule within_context_cases
        [of E target "[PInt fd, PInt ev]" "W\<lparr>current_context := cv\<rparr>" "io_context fd ev"])
     (simp_all add: invoke_callback_def dispatch_ok_def)

lemma dispatch_ok_raised:
  "dispatch_ok E cv W ts (tr, Some e, cv1, W1) \<Longrightarrow>
   dispatch_ok E cv W (ts @ ts2) (tr, Some e, cv1, W1)"
  by (auto simp: dispatch_ok_def)

lemma dispatch_ok_seq:
  assumes "dispatch_ok E cv W ts (tr, None, cv1, W1)"
    and "dispatch_ok E cv1 W1 ts2 (tr2, raised, cv2, W2)"
  shows "dispatch_ok E cv W (ts @ ts2) (tr @ tr2, raised, cv2, W2)"
proof (cases raised)
  case None
  with assms show ?thesis
    by (auto simp: dispatch_ok_def dispatched_append calls_append entered_append
          reports_append invocations_append split: list.splits)
next
  case (Some e)
  with assms have ne: "tr2 \<noteq> []" "reports tr2 \<noteq> []"
    by (auto simp: dispatch_ok_def)
  with Some assms show ?thesis
    by (auto simp: dispatch_ok_def dispatched_append calls_append entered_append
          reports_append invocations_append last_report_append butlast_append
          split: list.splits)
qed

lemma invoke_handles_ok: "dispatch_ok E cv W (map Timer hs) (invoke_handles E cv hs W)"
proof (induction hs arbitrary: cv W)
  case Nil
  show ?case by (simp add: dispatch_ok_def)
next
  case (Cons h hs)
  obtain tr raised cv1 W1 where h: "invoke_handle E cv h W = (tr, raised, cv1, W1)"
    by (cases "invoke_handle E cv h W") auto
  have ok: "dispatch_ok E cv W [Timer h] (tr, raised, cv1, W1)"
    using invoke_handle_ok [of E cv W h] h by simp
  show ?case
  proof (cases raised)
    case None
    obtain tr2 raised2 cv2 W2 where r: "invoke_handles E cv1 hs W1 = (tr2, raised2, cv2, W2)"
      by (cases "invoke_handles E cv1 hs W1") auto
    have "dispatch_ok E cv W ([Timer h] @ map Timer hs) (tr @ tr2, raised2, cv2, W2)"
      using ok Cons.IH [of cv1 W1] r None by (intro dispatch_ok_seq) simp_all
    with h r None show ?thesis by simp
  next
    case (Some e)
    have "dispatch_ok E cv W ([Timer h] @ map Timer hs) (tr, Some e, cv1, W1)"
      using ok Some by (intro dispatch_ok_raised) simp
    with h Some show ?thesis by simp
  qed
qed

lemma invoke_io_callbacks_ok:
  "dispatch_ok E cv W (map fired_target io) (invoke_io_callbacks E cv io W)"
proof (induction io arbitrary: cv W)
  case Nil
  show ?case by (simp add: dispatch_ok_def)
next
  case (Cons x io)
  obtain target fd ev where x: "x = (target, fd, ev)" by (cases x) auto
  obtain tr raised cv1 W1
    where h: "invoke_callback E cv target [PInt fd, PInt ev] (io_context fd ev) W
                = (tr, raised, cv1, W1)"
    by (cases "invoke_callback E cv target [PInt fd, PInt ev] (io_context fd ev) W") auto
  have ok: "dispatch_ok E cv W [IO target fd ev] (Fired target fd ev # tr, raised, cv1, W1)"
    using invoke_io_ok [where E = E and cv = cv and target = target and fd = fd and ev = ev and W = W] h by simp
  show ?case
  proof (cases raised)
    case None
    obtain tr2 raised2 cv2 W2
      where r: "invoke_io_callbacks E cv1 io W1 = (tr2, raised2, cv2, W2)"
      by (cases "invoke_io_callbacks E cv1 io W1") auto
    have "dispatch_ok E cv W ([IO target fd ev] @ map fired_target io)
            ((Fired target fd ev # tr) @ tr2, raised2, cv2, W2)"
      using ok Cons.IH [of cv1 W1] r None by (intro dispatch_ok_seq) simp_all
    with h r None x show ?thesis by simp
  next
    case (Some e)
    have "dispatch_ok E cv W ([IO target fd ev] @ map fired_target io)
            (Fired target fd ev # tr, Some e, cv1, W1)"
      using ok Some by (intro dispatch_ok_raised) simp
    with h Some x show ?thesis by simp
  qed
qed

lemma measured_ok:
  assumes "\<And>V. current_context V = current_context W \<Longrightarrow> dispatch_ok E cv V ts (body V)"
  shows "dispatch_ok E cv W ts (measured E body W)"
proof -
  have "dispatch_ok E cv (on_clock (measure_enter E) W) ts (body (on_clock (measure_enter E) W))"
    by (rule assms) (simp add: on_clock_def)
  then show ?thesis
    by (cases "body (on_clock (measure_enter E) W)")
       (auto simp: measured_def dispatch_ok_def on_clock_def split: option.splits)
qed


subsection \<open>The dispatching part of a step\<close>

lemma pop_pending_context: "current_context (snd (pop_pending t W)) = current_context W"
  by (simp add: pop_pending_def split: prod.splits)

lemma clock_now_context: "current_context (snd (clock_now W)) = current_context W"
  by (simp add: clock_now_def Let_def)

lemma early_ok:
  "dispatch_ok E cv W (map Timer early)
     (if early = [] then ([], None, cv, W) else measured E (invoke_handles E cv early) W)"
proof (cases "early = []")
  case True
  then show ?thesis by (simp add: dispatch_ok_def)
next
  case False
  then show ?thesis by (simp add: measured_ok invoke_handles_ok)
qed

lemma step_dispatch_cases:
  obtains
    (early_raised) e tr1 cv1 W' where
      "step_dispatch E early io end_at cv W = (tr1, Some e, W')"
      "dispatch_ok E cv W (map Timer early) (tr1, Some e, cv1, W')"
  | (io_raised) e tr1 cv1 W1 tr2 cv2 W' where
      "step_dispatch E early io end_at cv W = (tr1 @ tr2, Some e, W')"
      "dispatch_ok E cv W (map Timer early) (tr1, None, cv1, W1)"
      "dispatch_ok E cv1 W1 (map fired_target io) (tr2, Some e, cv2, W')"
  | (late_raised) e tr1 cv1 W1 tr2 cv2 W2 late W3 tr3 cv3 W' where
      "step_dispatch E early io end_at cv W = (tr1 @ tr2 @ PopPending end_at late # tr3, Some e, W')"
      "dispatch_ok E cv W (map Timer early) (tr1, None, cv1, W1)"
      "dispatch_ok E cv1 W1 (map fired_target io) (tr2, None, cv2, W2)"
      "pop_pending end_at W2 = (late, W3)"
      "dispatch_ok E cv2 W3 (map Timer late) (tr3, Some e, cv3, W')"
  | (finished) tr1 cv1 W1 tr2 cv2 W2 late W3 tr3 cv3 W4 at_end W' where
      "step_dispatch E early io end_at cv W =
         (tr1 @ tr2 @ PopPending end_at late # tr3 @ [Now at_end], None, W')"
      "dispatch_ok E cv W (map Timer early) (tr1, None, cv1, W1)"
      "dispatch_ok E cv1 W1 (map fired_target io) (tr2, None, cv2, W2)"
      "pop_pending end_at W2 = (late, W3)"
      "dispatch_ok E cv2 W3 (map Timer late) (tr3, None, cv3, W4)"
      "clock_now W4 = (at_end, W')"
proof -
  obtain tr1 r1 cv1 W1 where p1:
    "(if early = [] then ([], None, cv, W) else measured E (invoke_handles E cv early) W)
       = (tr1, r1, cv1, W1)"
    by (cases "if early = [] then ([], None, cv, W) else measured E (invoke_handles E cv early) W")
       auto
  have ok1: "dispatch_ok E cv W (map Timer early) (tr1, r1, cv1, W1)"
    using early_ok [of E cv W early] p1 by simp
  obtain tr2 r2 cv2 W2 where p2:
    "measured E (invoke_io_callbacks E cv1 io) W1 = (tr2, r2, cv2, W2)"
    by (cases "measured E (invoke_io_callbacks E cv1 io) W1") auto
  have ok2: "dispatch_ok E cv1 W1 (map fired_target io) (tr2, r2, cv2, W2)"
    using measured_ok [of W1 E cv1 "map fired_target io" "invoke_io_callbacks E cv1 io"]
      invoke_io_callbacks_ok p2 by simp
  obtain late W3 where p3: "pop_pending end_at W2 = (late, W3)"
    by (cases "pop_pending end_at W2") auto
  obtain tr3 r3 cv3 W4 where p4:
    "measured E (invoke_handles E cv2 late) W3 = (tr3, r3, cv3, W4)"
    by (cases "measured E (invoke_handles E cv2 late) W3") auto
  have ok3: "dispatch_ok E cv2 W3 (map Timer late) (tr3, r3, cv3, W4)"
    using measured_ok [of W3 E cv2 "map Timer late" "invoke_handles E cv2 late"]
      invoke_handles_ok p4 by simp
  obtain at_end W5 where p5: "clock_now W4 = (at_end, W5)"
    by (cases "clock_now W4") auto
  show ?thesis
  proof (cases r1)
    case (Some e)
    with p1 have "step_dispatch E early io end_at cv W = (tr1, Some e, W1)"
      by (simp add: step_dispatch_def)
    with Some ok1 show ?thesis by (auto intro: early_raised)
  next
    case n1: None
    show ?thesis
    proof (cases r2)
      case (Some e)
      with p1 p2 n1 have "step_dispatch E early io end_at cv W = (tr1 @ tr2, Some e, W2)"
        by (simp add: step_dispatch_def)
      with Some n1 ok1 ok2 show ?thesis by (auto intro: io_raised)
    next
      case n2: None
      show ?thesis
      proof (cases r3)
        case (Some e)
        with p1 p2 p3 p4 n1 n2
        have "step_dispatch E early io end_at cv W
                = (tr1 @ tr2 @ PopPending end_at late # tr3, Some e, W4)"
          by (simp add: step_dispatch_def)
        with Some n1 n2 ok1 ok2 ok3 p3 show ?thesis by (auto intro: late_raised)
      next
        case n3: None
        with p1 p2 p3 p4 p5 n1 n2
        have "step_dispatch E early io end_at cv W
                = (tr1 @ tr2 @ PopPending end_at late # tr3 @ [Now at_end], None, W5)"
          by (simp add: step_dispatch_def)
        with n1 n2 n3 ok1 ok2 ok3 p3 p5 show ?thesis by (auto intro: finished)
      qed
    qed
  qed
qed


subsection \<open>The waiting part of a step\<close>

lemma wait_events_for_eq:
  "wait_events_for early ne W =
     ((if early = [] \<and> ne \<noteq> None then [Now (fst (clock_now W))] else []),
      (if early \<noteq> [] then Some 0
       else (case ne of None \<Rightarrow> None | Some d \<Rightarrow> Some (remaining d (fst (clock_now W))))),
      (if early = [] \<and> ne \<noteq> None then snd (clock_now W) else W))"
  by (cases ne; cases "early = []")
     (auto simp: wait_events_for_def max_def split: prod.splits deadline.splits)

lemma step_wait_shape:
  assumes "clock_now W = (t0, W1)"
    and "pop_pending (t0 + resolution (clock W)) W1 = (early, W2)"
    and "next_event W2 = (ne, W3)"
  obtains io t1 W6 where
    "step_wait E W =
       (Now t0 # PopPending (t0 + resolution (clock W)) early # NextEvent ne #
          (if early = [] \<and> ne \<noteq> None then [Now (fst (clock_now W3))] else []) @
          [Select (if early \<noteq> [] then Some 0
                   else (case ne of None \<Rightarrow> None
                         | Some d \<Rightarrow> Some (remaining d (fst (clock_now W3))))) io,
           Now t1],
        early, io, t1 + resolution (clock W), current_context W, W6)"
    "current_context W6 = current_context W"
proof -
  have r: "resolution (clock W1) = resolution (clock W)"
    using assms(1) by (auto simp: clock_now_def Let_def)
  have c: "current_context W3 = current_context W"
    using assms by (auto simp: clock_now_def Let_def pop_pending_def next_event_def
        split: prod.splits)
  obtain pre w W4 where w: "wait_events_for early ne W3 = (pre, w, W4)"
    by (cases "wait_events_for early ne W3") auto
  have c4: "current_context W4 = current_context W"
    using w c by (auto simp: wait_events_for_eq clock_now_def Let_def split: if_splits)
  obtain io W5 where s: "select w (on_clock (measure_enter E) W4) = (io, W5)"
    by (cases "select w (on_clock (measure_enter E) W4)") auto
  have c5: "current_context W5 = current_context W"
    using s c4 by (auto simp: select_def on_clock_def split: list.splits)
  obtain t1 W6 where n: "clock_now (on_clock (measure_exit E)
                     (on_clock (measure_get_elapsed E) W5)) = (t1, W6)"
    by (cases "clock_now (on_clock (measure_exit E) (on_clock (measure_get_elapsed E) W5))")
       auto
  have c6: "current_context W6 = current_context W"
    using n c5 by (auto simp: clock_now_def on_clock_def Let_def)
  have "step_wait E W =
       (Now t0 # PopPending (t0 + resolution (clock W)) early # NextEvent ne # pre @
          [Select w io, Now t1],
        early, io, t1 + resolution (clock W), current_context W, W6)"
    using assms r w s n c6 by (simp add: step_wait_def Let_def)
  with w c6 show ?thesis
    by (intro that [of io t1 W6]) (simp_all add: wait_events_for_eq)
qed


subsection \<open>A whole step\<close>

lemma run_step_shape:
  assumes "clock_now W = (t0, W1)"
    and "pop_pending (t0 + resolution (clock W)) W1 = (early, W2)"
    and "next_event W2 = (ne, W3)"
  obtains io t1 W6 where
    "run_step E W =
       (case step_dispatch E early io (t1 + resolution (clock W)) (current_context W) W6 of
          (tr, rest) \<Rightarrow>
            (Now t0 # PopPending (t0 + resolution (clock W)) early # NextEvent ne #
               (if early = [] \<and> ne \<noteq> None then [Now (fst (clock_now W3))] else []) @
               Select (if early \<noteq> [] then Some 0
                       else (case ne of None \<Rightarrow> None
                             | Some d \<Rightarrow> Some (remaining d (fst (clock_now W3))))) io #
               Now t1 # tr, rest))"
    "current_context W6 = current_context W"
proof -
  obtain io t1 W6 where sw:
    "step_wait E W =
       (Now t0 # PopPending (t0 + resolution (clock W)) early # NextEvent ne #
          (if early = [] \<and> ne \<noteq> None then [Now (fst (clock_now W3))] else []) @
          [Select (if early \<noteq> [] then Some 0
                   else (case ne of None \<Rightarrow> None
                         | Some d \<Rightarrow> Some (remaining d (fst (clock_now W3))))) io,
           Now t1],
        early, io, t1 + resolution (clock W), current_context W, W6)"
    and c: "current_context W6 = current_context W"
    using step_wait_shape [OF assms, of E] by blast
  show ?thesis
    by (rule that [of io t1 W6]) (simp_all add: run_step_def sw c split: prod.splits)
qed

lemma report_is_last:
  assumes "xs \<noteq> []" and "list_all P (butlast xs)" and "x \<in> set xs" and "\<not> P x"
  shows "x = last xs"
proof -
  have "xs = butlast xs @ [last xs]" using assms(1) by simp
  then have "x \<in> set (butlast xs) \<or> x = last xs"
    using assms(3) by (metis Un_iff insert_iff list.set(2) set_append empty_iff list.set(1))
  with assms(2,4) show ?thesis by (auto simp: list_all_iff)
qed

lemma hd_entered_append:
  assumes "entered a = [] \<Longrightarrow> cv2 = cv"
    and "entered a \<noteq> [] \<Longrightarrow> hd (entered a) = f cv"
    and "entered b \<noteq> [] \<Longrightarrow> hd (entered b) = f cv2"
  shows "entered (a @ b) \<noteq> [] \<longrightarrow> hd (entered (a @ b)) = f cv"
  using assms by (cases "entered a = []") (simp_all add: entered_append)

lemma dispatch_okD:
  assumes "dispatch_ok E cv W ts (tr, raised, cv1, W1)"
  shows "list_all dispatch_event tr"
    and "current_context W1 = current_context W"
    and "running_loop cv1 = running_loop cv"
    and "list_all (\<lambda>c. running_loop c = Some (loop_id E)) (entered tr)"
    and "entered tr = [] \<Longrightarrow> cv1 = cv"
    and "entered tr \<noteq> [] \<Longrightarrow> hd (entered tr) = cv\<lparr>running_loop := Some (loop_id E)\<rparr>"
    and "length (calls tr) = invocations tr"
    and "prefix (dispatched tr) ts"
    and "raised = None \<Longrightarrow> dispatched tr = ts"
    and "raised = Some e \<Longrightarrow> \<not> is_Exception e \<and> last_report tr = Some e \<and> tr \<noteq> []"
  using assms by (auto simp: dispatch_ok_def split: list.splits)

lemma dispatch_ok_reports:
  assumes "dispatch_ok E cv W ts (tr, raised, cv1, W1)"
    and "(e, c, kw) \<in> set (reports tr)" and "\<not> is_Exception e"
  shows "raised = Some e"
proof (cases raised)
  case None
  with assms show ?thesis by (auto simp: dispatch_ok_def list_all_iff)
next
  case (Some e')
  with assms(1) have a: "reports tr \<noteq> []"
      "list_all (\<lambda>r. is_Exception (fst r)) (butlast (reports tr))"
      "fst (last (reports tr)) = e'"
    by (auto simp: dispatch_ok_def)
  have "(e, c, kw) = last (reports tr)"
    using report_is_last [OF a(1) a(2) assms(2)] assms(3) by simp
  with a(3) Some show ?thesis by (metis fst_conv)
qed

lemma dispatch_ok_no_reports:
  "dispatch_ok E cv W ts (tr, None, cv1, W1) \<Longrightarrow> (e, c, kw) \<in> set (reports tr) \<Longrightarrow>
   is_Exception e"
  using dispatch_ok_reports by fastforce

text \<open>What the dispatching part of a step guarantees, read off the four ways it can end.\<close>

lemma step_dispatch_facts:
  assumes "step_dispatch E early io end_at cv W = (tr, raised, W')"
  shows "current_context W' = current_context W"
    and "list_all (\<lambda>c. running_loop c = Some (loop_id E)) (entered tr)"
    and "entered tr \<noteq> [] \<Longrightarrow> hd (entered tr) = cv\<lparr>running_loop := Some (loop_id E)\<rparr>"
    and "length (calls tr) = invocations tr"
    and "select_timeouts tr = []"
    and "raised = Some e \<Longrightarrow> \<not> is_Exception e \<and> last_report tr = Some e"
    and "(e, c, kw) \<in> set (reports tr) \<Longrightarrow> \<not> is_Exception e \<Longrightarrow> raised = Some e"
    and "\<exists>late. prefix (pops tr) [(end_at, late)]
           \<and> prefix (dispatched tr) (map Timer early @ map fired_target io @ map Timer late)
           \<and> (raised = None \<longrightarrow>
                (\<exists>tr_e tr_io tr_l t2.
                   tr = tr_e @ tr_io @ PopPending end_at late # tr_l @ [Now t2]
                   \<and> list_all dispatch_event tr_e \<and> list_all dispatch_event tr_io
                   \<and> list_all dispatch_event tr_l
                   \<and> dispatched tr_e = map Timer early
                   \<and> dispatched tr_io = map fired_target io
                   \<and> dispatched tr_l = map Timer late))"
proof -
  have all: "current_context W' = current_context W
    \<and> list_all (\<lambda>c. running_loop c = Some (loop_id E)) (entered tr)
    \<and> (entered tr \<noteq> [] \<longrightarrow> hd (entered tr) = cv\<lparr>running_loop := Some (loop_id E)\<rparr>)
    \<and> length (calls tr) = invocations tr
    \<and> select_timeouts tr = []
    \<and> (raised = Some e \<longrightarrow> \<not> is_Exception e \<and> last_report tr = Some e)
    \<and> ((e, c, kw) \<in> set (reports tr) \<longrightarrow> \<not> is_Exception e \<longrightarrow> raised = Some e)
    \<and> (\<exists>late. prefix (pops tr) [(end_at, late)]
           \<and> prefix (dispatched tr) (map Timer early @ map fired_target io @ map Timer late)
           \<and> (raised = None \<longrightarrow>
                (\<exists>tr_e tr_io tr_l t2.
                   tr = tr_e @ tr_io @ PopPending end_at late # tr_l @ [Now t2]
                   \<and> list_all dispatch_event tr_e \<and> list_all dispatch_event tr_io
                   \<and> list_all dispatch_event tr_l
                   \<and> dispatched tr_e = map Timer early
                   \<and> dispatched tr_io = map fired_target io
                   \<and> dispatched tr_l = map Timer late)))"
  proof (cases rule: step_dispatch_cases [of E early io end_at cv W])
    case (early_raised e1 tr1 cv1 V)
    with assms have eq: "tr = tr1" "raised = Some e1" "W' = V" by simp_all
    note d = dispatch_okD [OF early_raised(2)]
    have p: "prefix (dispatched tr1) (map Timer early @ map fired_target io @ map Timer [])"
      using d(8) by (simp add: prefix_prefix)
    show ?thesis
      unfolding eq
      apply (intro conjI)
             apply (simp add: d)
            apply (simp add: d)
           apply (simp add: d)
          apply (simp add: d)
         apply (simp add: d select_timeouts_dispatch)
        apply (use d(10) in clarsimp)
       apply (rule impI, rule impI, erule (1) dispatch_ok_reports [OF early_raised(2)])
      apply (rule exI [of _ "[]"])
      apply (use p d(1) in \<open>simp add: pops_dispatch\<close>)
      done
  next
    case (io_raised e1 tr1 cv1 W1 tr2 cv2 V)
    with assms have eq: "tr = tr1 @ tr2" "raised = Some e1" "W' = V" by simp_all
    have ok: "dispatch_ok E cv W (map Timer early @ map fired_target io) (tr1 @ tr2, Some e1, cv2, V)"
      using io_raised(2,3) by (rule dispatch_ok_seq)
    note d = dispatch_okD [OF ok]
    have p: "prefix (dispatched (tr1 @ tr2)) (map Timer early @ map fired_target io @ map Timer [])"
      using d(8) by simp
    show ?thesis
      unfolding eq
      apply (intro conjI)
             apply (simp add: d)
            apply (simp add: d)
           apply (use d(6) in simp)
          apply (simp add: d)
         apply (use d(1) in \<open>simp add: select_timeouts_dispatch\<close>)
        apply (use d(10) in clarsimp)
       apply (rule impI, rule impI, erule (1) dispatch_ok_reports [OF ok])
      apply (rule exI [of _ "[]"])
      apply (use p d(1) in \<open>simp add: pops_dispatch\<close>)
      done
  next
    case (late_raised e1 tr1 cv1 W1 tr2 cv2 W2 late W3 tr3 cv3 V)
    define T where "T = tr1 @ tr2"
    from late_raised(1) assms have eq: "tr = T @ PopPending end_at late # tr3"
      "raised = Some e1" "W' = V"
      by (simp_all add: T_def)
    have ok: "dispatch_ok E cv W (map Timer early @ map fired_target io) (T, None, cv2, W2)"
      unfolding T_def using late_raised(2,3) by (rule dispatch_ok_seq)
    note d = dispatch_okD [OF ok]
    note l = dispatch_okD [OF late_raised(5)]
    have c3: "current_context W3 = current_context W2"
      using pop_pending_context [of end_at W2] late_raised(4) by simp
    have h: "entered (T @ PopPending end_at late # tr3) \<noteq> [] \<longrightarrow>
             hd (entered (T @ PopPending end_at late # tr3)) = cv\<lparr>running_loop := Some (loop_id E)\<rparr>"
      using d(5,6) l(6) by (intro hd_entered_append [where ?cv2.0 = cv2]) simp_all
    have lr: "last_report (T @ PopPending end_at late # tr3) = Some e1"
      using l(10) [of e1] by (simp add: last_report_append last_report_Cons)
    have rep: "(e, c, kw) \<in> set (reports (T @ PopPending end_at late # tr3)) \<longrightarrow>
               \<not> is_Exception e \<longrightarrow> Some e1 = Some e"
      using dispatch_ok_no_reports [OF ok] dispatch_ok_reports [OF late_raised(5)]
      by (auto simp: reports_append)
    show ?thesis
      unfolding eq
      apply (intro conjI)
             apply (simp add: d l c3)
            apply (simp add: d l entered_append)
           apply (rule h)
          apply (simp add: d l calls_append invocations_append)
         apply (use d(1) l(1) in \<open>simp add: select_timeouts_dispatch select_timeouts_append\<close>)
        apply (use l(10) lr in clarsimp)
       apply (rule rep)
      apply (rule exI [of _ late])
      apply (use d(1,9) l(1,8) in \<open>simp add: pops_dispatch pops_append dispatched_append\<close>)
      done
  next
    case (finished tr1 cv1 W1 tr2 cv2 W2 late W3 tr3 cv3 W4 at_end V)
    define T where "T = tr1 @ tr2"
    from finished(1) assms have eq: "tr = T @ PopPending end_at late # tr3 @ [Now at_end]"
      "raised = None" "W' = V"
      by (simp_all add: T_def)
    have ok: "dispatch_ok E cv W (map Timer early @ map fired_target io) (T, None, cv2, W2)"
      unfolding T_def using finished(2,3) by (rule dispatch_ok_seq)
    note d = dispatch_okD [OF ok]
    note d1 = dispatch_okD [OF finished(2)]
    note d2 = dispatch_okD [OF finished(3)]
    note l = dispatch_okD [OF finished(5)]
    have c3: "current_context W3 = current_context W2"
      using pop_pending_context [of end_at W2] finished(4) by simp
    have c5: "current_context V = current_context W4"
      using clock_now_context [of W4] finished(6) by simp
    have h: "entered (T @ PopPending end_at late # tr3 @ [Now at_end]) \<noteq> [] \<longrightarrow>
             hd (entered (T @ PopPending end_at late # tr3 @ [Now at_end]))
               = cv\<lparr>running_loop := Some (loop_id E)\<rparr>"
      using d(5,6) l(6)
      by (intro hd_entered_append [where ?cv2.0 = cv2]) (simp_all add: entered_append)
    have rep: "(e, c, kw) \<in> set (reports (T @ PopPending end_at late # tr3 @ [Now at_end])) \<longrightarrow>
               \<not> is_Exception e \<longrightarrow> None = Some e"
      using dispatch_ok_no_reports [OF ok] dispatch_ok_no_reports [OF finished(5)]
      by (auto simp: reports_append)
    have shape: "\<exists>tr_e tr_io tr_l t2.
                   T @ PopPending end_at late # tr3 @ [Now at_end]
                     = tr_e @ tr_io @ PopPending end_at late # tr_l @ [Now t2]
                   \<and> list_all dispatch_event tr_e \<and> list_all dispatch_event tr_io
                   \<and> list_all dispatch_event tr_l
                   \<and> dispatched tr_e = map Timer early
                   \<and> dispatched tr_io = map fired_target io
                   \<and> dispatched tr_l = map Timer late"
      apply (rule exI [of _ tr1], rule exI [of _ tr2], rule exI [of _ tr3], rule exI [of _ at_end])
      apply (simp add: d1 d2 l T_def)
      done
    show ?thesis
      unfolding eq
      apply (intro conjI)
             apply (simp add: d l c3 c5)
            apply (simp add: d l entered_append)
           apply (rule h)
          apply (simp add: d l calls_append invocations_append)
         apply (use d(1) l(1) in \<open>simp add: select_timeouts_dispatch select_timeouts_append\<close>)
        apply simp
       apply (rule rep)
      apply (rule exI [of _ late])
      apply (intro conjI)
        apply (use d(1) l(1) in \<open>simp add: pops_dispatch pops_append\<close>)
       apply (use d(9) l(9) in \<open>simp add: dispatched_append\<close>)
      apply (rule impI, rule shape)
      done
  qed
  show "current_context W' = current_context W"
    and "list_all (\<lambda>c. running_loop c = Some (loop_id E)) (entered tr)"
    and "entered tr \<noteq> [] \<Longrightarrow> hd (entered tr) = cv\<lparr>running_loop := Some (loop_id E)\<rparr>"
    and "length (calls tr) = invocations tr"
    and "select_timeouts tr = []"
    and "raised = Some e \<Longrightarrow> \<not> is_Exception e \<and> last_report tr = Some e"
    and "(e, c, kw) \<in> set (reports tr) \<Longrightarrow> \<not> is_Exception e \<Longrightarrow> raised = Some e"
    and "\<exists>late. prefix (pops tr) [(end_at, late)]
           \<and> prefix (dispatched tr) (map Timer early @ map fired_target io @ map Timer late)
           \<and> (raised = None \<longrightarrow>
                (\<exists>tr_e tr_io tr_l t2.
                   tr = tr_e @ tr_io @ PopPending end_at late # tr_l @ [Now t2]
                   \<and> list_all dispatch_event tr_e \<and> list_all dispatch_event tr_io
                   \<and> list_all dispatch_event tr_l
                   \<and> dispatched tr_e = map Timer early
                   \<and> dispatched tr_io = map fired_target io
                   \<and> dispatched tr_l = map Timer late))"
    using all by blast+
qed

section \<open>Handle.cancel\<close>

lemma funpow_cancel: "(cancel ^^ n) h = (if n = 0 then h else cancel h)"
  by (induction n) (simp_all add: cancel_def)

text \<open>
  C10. \<open>cancel\<close> is idempotent and assigns only the flag: after one or more calls the
  flag is set, and after any number of calls \<open>when\<close>, \<open>callback\<close>, \<open>args\<close> and
  \<open>context\<close> are what they were at construction.
\<close>

theorem Handle_cancel_idempotent_frame:
  "cancel (cancel h) = cancel h
   \<and> (0 < n \<longrightarrow> cancelled ((cancel ^^ n) h))
   \<and> when ((cancel ^^ n) h) = when h
   \<and> callback ((cancel ^^ n) h) = callback h
   \<and> args ((cancel ^^ n) h) = args h
   \<and> context ((cancel ^^ n) h) = context h"
  by (simp add: funpow_cancel cancel_def)

theorem Handle_cancel_idempotent_frame_witness:
  "(0::nat) < 3 \<and> \<not> cancelled handle0 \<and> cancelled ((cancel ^^ 3) handle0)
   \<and> when ((cancel ^^ 3) handle0) = Some 5
   \<and> callback ((cancel ^^ 3) handle0) = 1
   \<and> args ((cancel ^^ 3) handle0) = [PInt 3]
   \<and> context ((cancel ^^ 3) handle0) = [(''task'', PStr ''t1'')]"
  using Handle_cancel_idempotent_frame [of handle0 3] by (simp add: handle0_def)

section \<open>call_soon and call_later\<close>

lemma set_insert_entry: "set (insert_entry e xs) = insert e (set xs)"
  by (induction xs) auto

text \<open>
  C8. \<open>call_later\<close> with delay 0 is \<open>call_soon\<close>. With any other delay it allocates a
  handle whose deadline is the clock reading plus the delay, not cancelled, with the
  given callback, arguments and context, adds it to the scheduler's queue under that
  deadline, and returns it. \<open>call_soon\<close> does the same with no deadline, which the
  queue files under \<open>-\<infinity>\<close>.
\<close>

theorem call_later_call_soon_handles:
  "call_later 0 target xs ctx W = call_soon target xs ctx W
   \<and> (timeout \<noteq> 0 \<longrightarrow>
        (case call_later timeout target xs ctx W of
           (h, W') \<Rightarrow>
             h = next_ref W
             \<and> heap W' =
                 (heap W)(h := \<lparr>when = Some (now_at (clock W) (reads (clock W)) + timeout),
                   callback = target, args = xs, cancelled = False,
                   context = (case ctx of None \<Rightarrow> [] | Some m \<Rightarrow> m)\<rparr>)
             \<and> set (queue (scheduler W')) =
                 insert (At (now_at (clock W) (reads (clock W)) + timeout),
                         sequence (scheduler W), h) (set (queue (scheduler W)))))
   \<and> (case call_soon target xs ctx W of
         (h, W') \<Rightarrow>
           h = next_ref W
           \<and> heap W' = (heap W)(h := \<lparr>when = None, callback = target, args = xs,
                 cancelled = False, context = (case ctx of None \<Rightarrow> [] | Some m \<Rightarrow> m)\<rparr>)
           \<and> set (queue (scheduler W')) =
               insert (NegInf, sequence (scheduler W), h) (set (queue (scheduler W))))"
proof -
  have soon: "case call_soon target xs ctx W of
         (h, W') \<Rightarrow>
           h = next_ref W
           \<and> heap W' = (heap W)(h := \<lparr>when = None, callback = target, args = xs,
                 cancelled = False, context = (case ctx of None \<Rightarrow> [] | Some m \<Rightarrow> m)\<rparr>)
           \<and> set (queue (scheduler W')) =
               insert (NegInf, sequence (scheduler W), h) (set (queue (scheduler W)))"
    by (simp add: call_soon_def new_handle_def enqueue_def Let_def set_insert_entry)
  have later: "timeout \<noteq> 0 \<Longrightarrow>
        (case call_later timeout target xs ctx W of
           (h, W') \<Rightarrow>
             h = next_ref W
             \<and> heap W' =
                 (heap W)(h := \<lparr>when = Some (now_at (clock W) (reads (clock W)) + timeout),
                   callback = target, args = xs, cancelled = False,
                   context = (case ctx of None \<Rightarrow> [] | Some m \<Rightarrow> m)\<rparr>)
             \<and> set (queue (scheduler W')) =
                 insert (At (now_at (clock W) (reads (clock W)) + timeout),
                         sequence (scheduler W), h) (set (queue (scheduler W))))"
    by (simp add: call_later_def clock_now_def Let_def new_handle_def enqueue_def
          set_insert_entry split: prod.splits)
  show ?thesis using soon later by (simp add: call_later_def)
qed

theorem call_later_call_soon_handles_witness:
  "(2::real) \<noteq> 0
   \<and> fst (call_later 2 6 [PInt 1] None ex_world) = 0
   \<and> when (heap (snd (call_later 2 6 [PInt 1] None ex_world)) 0) = Some 102
   \<and> queue (scheduler (snd (call_later 2 6 [PInt 1] None ex_world))) = [(At 102, 0, 0)]
   \<and> when (heap (snd (call_soon 6 [PInt 1] None ex_world)) 0) = None
   \<and> queue (scheduler (snd (call_soon 6 [PInt 1] None ex_world))) = [(NegInf, 0, 0)]
   \<and> call_later 0 6 [PInt 1] None ex_world = call_soon 6 [PInt 1] None ex_world"
  using call_later_call_soon_handles
          [where timeout = 2 and target = 6 and xs = "[PInt 1]" and ctx = None and W = ex_world]
  by (simp add: step_defs ex_defs)

section \<open>The timeout passed to select\<close>

text \<open>
  C1, as the code has it. In every step the timeout passed to \<open>select\<close> is 0 when
  the early batch popped at the start of the step is non-empty; otherwise it is \<open>None\<close>
  when the scheduler reports no next event, whether or not I/O is registered; otherwise
  it is \<open>max(0, next_event - now)\<close> for a fresh clock reading \<open>now\<close>. The step
  calls \<open>select\<close> once.
\<close>

theorem run_step_select_timeout:
  assumes "clock_now W = (t0, W1)"
    and "pop_pending (t0 + resolution (clock W)) W1 = (early, W2)"
    and "next_event W2 = (ne, W3)"
    and "clock_now W3 = (now, W4)"
  shows "select_timeouts (fst (run_step E W)) =
           [if early \<noteq> [] then Some 0
            else (case ne of None \<Rightarrow> None | Some d \<Rightarrow> Some (remaining d now))]
         \<and> (\<exists>io tr.
               fst (run_step E W) =
                 Now t0 # PopPending (t0 + resolution (clock W)) early # NextEvent ne #
                 (if early = [] \<and> ne \<noteq> None then [Now now] else []) @
                 Select (if early \<noteq> [] then Some 0
                         else (case ne of None \<Rightarrow> None | Some d \<Rightarrow> Some (remaining d now)))
                   io # tr)"
proof -
  have now: "fst (clock_now W3) = now"
    using assms(4) by simp
  obtain io t1 W6 where r:
    "run_step E W =
       (case step_dispatch E early io (t1 + resolution (clock W)) (current_context W) W6 of
          (tr, rest) \<Rightarrow>
            (Now t0 # PopPending (t0 + resolution (clock W)) early # NextEvent ne #
               (if early = [] \<and> ne \<noteq> None then [Now now] else []) @
               Select (if early \<noteq> [] then Some 0
                       else (case ne of None \<Rightarrow> None
                             | Some d \<Rightarrow> Some (remaining d now))) io #
               Now t1 # tr, rest))"
    using run_step_shape [OF assms(1-3), of E] unfolding now by blast
  obtain tr raised W' where
    d: "step_dispatch E early io (t1 + resolution (clock W)) (current_context W) W6
          = (tr, raised, W')"
    by (cases "step_dispatch E early io (t1 + resolution (clock W)) (current_context W) W6")
       auto
  have n: "select_timeouts tr = []"
    using step_dispatch_facts(5) [OF d] .
  have eq: "fst (run_step E W) =
              Now t0 # PopPending (t0 + resolution (clock W)) early # NextEvent ne #
              (if early = [] \<and> ne \<noteq> None then [Now now] else []) @
              Select (if early \<noteq> [] then Some 0
                      else (case ne of None \<Rightarrow> None | Some d \<Rightarrow> Some (remaining d now)))
                io # Now t1 # tr"
    by (simp add: r d)
  have "select_timeouts (fst (run_step E W)) =
           [if early \<noteq> [] then Some 0
            else (case ne of None \<Rightarrow> None | Some d \<Rightarrow> Some (remaining d now))]"
    unfolding eq by (simp add: n select_timeouts_append)
  with eq show ?thesis by blast
qed

theorem run_step_select_timeout_witness:
  "fst (clock_now ex_world_timer) = 101
   \<and> fst (pop_pending (101 + 1 / 2) (snd (clock_now ex_world_timer))) = []
   \<and> fst (next_event (snd (pop_pending (101 + 1 / 2) (snd (clock_now ex_world_timer)))))
       = Some (At 105)
   \<and> fst (clock_now (snd (next_event (snd (pop_pending (101 + 1 / 2)
            (snd (clock_now ex_world_timer))))))) = 102
   \<and> select_timeouts (fst (run_step ex_env ex_world_timer)) = [Some 3]"
  using run_step_select_timeout
    [of ex_world_timer 101 "snd (clock_now ex_world_timer)" "[]"
        "snd (pop_pending (101 + 1 / 2) (snd (clock_now ex_world_timer)))" "Some (At 105)"
        "snd (next_event (snd (pop_pending (101 + 1 / 2) (snd (clock_now ex_world_timer)))))"
        102
        "snd (clock_now (snd (next_event (snd (pop_pending (101 + 1 / 2)
            (snd (clock_now ex_world_timer)))))))" ex_env]
  by (simp add: step_defs ex_defs)

text \<open>
  C1 as worded fails: with an empty early batch, no next event and an I/O registration
  present, the wording gives \<open>max(0, next_event - now)\<close>, a number; the step passes
  \<open>None\<close>.
\<close>

theorem select_blocks_with_io_registered:
  "watches (selector ex_world_io) \<noteq> []
   \<and> take 4 (fst (run_step ex_env ex_world_io)) =
       [Now 100, PopPending (201 / 2) [], NextEvent None, Select None [(2, 3, 1)]]
   \<and> select_timeouts (fst (run_step ex_env ex_world_io)) = [None]
   \<and> \<not> spec_select_timeout [] None (watches (selector ex_world_io) \<noteq> []) 101 None"
  by (simp add: step_defs ex_defs spec_select_timeout_def)

section \<open>The trace of a step, split at the call of select\<close>

lemma run_step_split:
  assumes "run_step E W = (tr, raised, W')"
  obtains t0 early ne pre w io t1 W6 tr_d where
    "tr = Now t0 # PopPending (t0 + resolution (clock W)) early # NextEvent ne # pre
            @ Select w io # Now t1 # tr_d"
    and "pre = [] \<or> (\<exists>t. pre = [Now t])"
    and "step_dispatch E early io (t1 + resolution (clock W)) (current_context W) W6
           = (tr_d, raised, W')"
    and "current_context W6 = current_context W"
    and "t0 = fst (clock_now W)"
proof -
  obtain t0 W1 where a: "clock_now W = (t0, W1)" by (cases "clock_now W") auto
  obtain early W2 where b: "pop_pending (t0 + resolution (clock W)) W1 = (early, W2)"
    by (cases "pop_pending (t0 + resolution (clock W)) W1") auto
  obtain ne W3 where c: "next_event W2 = (ne, W3)" by (cases "next_event W2") auto
  obtain io t1 W6 where r:
    "run_step E W =
       (case step_dispatch E early io (t1 + resolution (clock W)) (current_context W) W6 of
          (tr, rest) \<Rightarrow>
            (Now t0 # PopPending (t0 + resolution (clock W)) early # NextEvent ne #
               (if early = [] \<and> ne \<noteq> None then [Now (fst (clock_now W3))] else []) @
               Select (if early \<noteq> [] then Some 0
                       else (case ne of None \<Rightarrow> None
                             | Some d \<Rightarrow> Some (remaining d (fst (clock_now W3))))) io #
               Now t1 # tr, rest))"
    and cc: "current_context W6 = current_context W"
    using run_step_shape [OF a b c, of E] by blast
  obtain tr_d raised' V where
    d: "step_dispatch E early io (t1 + resolution (clock W)) (current_context W) W6
          = (tr_d, raised', V)"
    by (cases "step_dispatch E early io (t1 + resolution (clock W)) (current_context W) W6")
       auto
  from assms r d have eq:
    "tr = Now t0 # PopPending (t0 + resolution (clock W)) early # NextEvent ne #
               (if early = [] \<and> ne \<noteq> None then [Now (fst (clock_now W3))] else []) @
               Select (if early \<noteq> [] then Some 0
                       else (case ne of None \<Rightarrow> None
                             | Some d \<Rightarrow> Some (remaining d (fst (clock_now W3))))) io #
               Now t1 # tr_d"
    "raised' = raised" "V = W'"
    by simp_all
  show ?thesis
    by (rule that [OF eq(1) _ _ cc]) (use a d eq(2,3) in auto)
qed

section \<open>The order of dispatch within a step\<close>



section \<open>Cancelled handles\<close>

lemma invoke_handles_append:
  "invoke_handles E cv (hs1 @ hs2) W =
     (case invoke_handles E cv hs1 W of
        (tr1, Some e, rest) \<Rightarrow> (tr1, Some e, rest)
      | (tr1, None, cv1, W1) \<Rightarrow>
          (case invoke_handles E cv1 hs2 W1 of (tr2, rest) \<Rightarrow> (tr1 @ tr2, rest)))"
  by (induction hs1 arbitrary: cv W) (auto split: prod.splits option.splits)

lemma run_step_calls_invocations:
  "length (calls (fst (run_step E W))) = invocations (fst (run_step E W))"
proof -
  obtain tr raised W' where r: "run_step E W = (tr, raised, W')"
    by (cases "run_step E W") auto
  obtain t0 early ne pre w io t1 W6 tr_d where
    eq: "tr = Now t0 # PopPending (t0 + resolution (clock W)) early # NextEvent ne # pre
            @ Select w io # Now t1 # tr_d"
    and pre: "pre = [] \<or> (\<exists>t. pre = [Now t])"
    and d: "step_dispatch E early io (t1 + resolution (clock W)) (current_context W) W6
           = (tr_d, raised, W')"
    using run_step_split [OF r] by metis
  from pre have "calls pre = []" "invocations pre = 0" by auto
  with step_dispatch_facts(4) [OF d] show ?thesis
    by (simp add: r eq calls_append invocations_append)
qed

text \<open>
  C5. A handle whose flag is set when the loop reaches it is skipped: nothing is called,
  no exception arises, and the captured context and the world stay as they are. So in a
  batch, a handle that is cancelled in the world left by the handles before it (by one
  of their callbacks, or earlier) adds only the skip to the trace and the batch goes on
  from that same world. In the trace of a step every call belongs to a dispatch that was
  not skipped.
\<close>

theorem cancelled_handle_not_invoked:
  "(cancelled (heap W h) \<longrightarrow> invoke_handle E cv h W = ([Skipped h], None, cv, W))
   \<and> (invoke_handles E cv0 hs1 W0 = (tr1, None, cv, W) \<and> cancelled (heap W h) \<longrightarrow>
        invoke_handles E cv0 (hs1 @ h # hs2) W0 =
          (case invoke_handles E cv hs2 W of (tr2, rest) \<Rightarrow> (tr1 @ Skipped h # tr2, rest)))
   \<and> length (calls (fst (run_step E W))) = invocations (fst (run_step E W))"
  by (simp add: invoke_handles_append invoke_handle_def run_step_calls_invocations
        split: prod.splits)

theorem cancelled_handle_not_invoked_witness:
  "\<not> cancelled (heap ex_world_cancel 1)
   \<and> fst (snd (invoke_handles ex_env (current_context ex_world_cancel) [0] ex_world_cancel))
       = None
   \<and> cancelled (heap (snd (snd (snd
        (invoke_handles ex_env (current_context ex_world_cancel) [0] ex_world_cancel)))) 1)
   \<and> calls (fst (invoke_handles ex_env (current_context ex_world_cancel) [0, 1]
        ex_world_cancel)) = [(5, [])]
   \<and> dispatched (fst (run_step ex_env ex_world_cancel)) = [Timer 0, Timer 1]
   \<and> calls (fst (run_step ex_env ex_world_cancel)) = [(5, [])]
   \<and> invocations (fst (run_step ex_env ex_world_cancel)) = 1"
  using cancelled_handle_not_invoked
    [where E = ex_env and ?cv0.0 = "current_context ex_world_cancel" and ?hs1.0 = "[0]"
       and ?W0.0 = ex_world_cancel and h = 1 and ?hs2.0 = "[]"
       and ?tr1.0 = "fst (invoke_handles ex_env (current_context ex_world_cancel) [0]
                            ex_world_cancel)"
       and cv = "fst (snd (snd (invoke_handles ex_env (current_context ex_world_cancel) [0]
                            ex_world_cancel)))"
       and W = "snd (snd (snd (invoke_handles ex_env (current_context ex_world_cancel) [0]
                            ex_world_cancel)))"]
  by (simp add: step_defs ex_defs)

section \<open>Exceptions that leave a callback\<close>

lemma run_steps_pending:
  "run_steps E k W0 = (trs, Pending, W) \<Longrightarrow>
   run_steps E (k + n) W0 =
     (case run_steps E n W of (trs2, rest) \<Rightarrow> (trs @ trs2, rest))"
proof (induction k arbitrary: W0 trs)
  case 0
  then show ?case by (auto split: prod.splits)
next
  case (Suc k)
  obtain tr raised W1 where s: "run_step E W0 = (tr, raised, W1)"
    by (cases "run_step E W0") auto
  show ?case
  proof (cases raised)
    case (Some e)
    with Suc.prems s show ?thesis by simp
  next
    case None
    show ?thesis
    proof (cases "received_fut W1")
      case (Some res)
      with Suc.prems s None show ?thesis by (cases res) simp_all
    next
      case n: None
      obtain trs' res W2 where r: "run_steps E k W1 = (trs', res, W2)"
        by (cases "run_steps E k W1") auto
      with Suc.prems s None n have eq: "trs = tr # trs'" "res = Pending" "W2 = W"
        by simp_all
      from Suc.IH [of W1 trs'] r eq
      have "run_steps E (k + n) W1 =
              (case run_steps E n W of (trs2, rest) \<Rightarrow> (trs' @ trs2, rest))"
        by simp
      with s None n eq show ?thesis by (simp split: prod.splits)
    qed
  qed
qed

lemma run_steps_raise:
  assumes "run_steps E k W0 = (trs, Pending, W)" and "run_step E W = (tr, Some e, W')"
  shows "run_steps E (k + Suc fuel) W0 = (trs @ [tr], Raised e, W')"
  using run_steps_pending [OF assms(1), of "Suc fuel"] assms(2) by simp

lemma run_step_raised:
  assumes "run_step E W = (tr, raised, W')"
  shows "raised = Some e \<Longrightarrow> \<not> is_Exception e \<and> last_report tr = Some e"
    and "(e, c, kw) \<in> set (reports tr) \<Longrightarrow> \<not> is_Exception e \<Longrightarrow> raised = Some e"
proof -
  obtain t0 early ne pre w io t1 W6 tr_d where
    eq: "tr = Now t0 # PopPending (t0 + resolution (clock W)) early # NextEvent ne # pre
            @ Select w io # Now t1 # tr_d"
    and pre: "pre = [] \<or> (\<exists>t. pre = [Now t])"
    and d: "step_dispatch E early io (t1 + resolution (clock W)) (current_context W) W6
           = (tr_d, raised, W')"
    using run_step_split [OF assms] by metis
  have rp: "reports tr = reports tr_d"
    using pre by (auto simp: eq reports_append)
  show "(e, c, kw) \<in> set (reports tr) \<Longrightarrow> \<not> is_Exception e \<Longrightarrow> raised = Some e"
    using step_dispatch_facts(7) [OF d] rp by simp
  show "raised = Some e \<Longrightarrow> \<not> is_Exception e \<and> last_report tr = Some e"
  proof -
    assume r: "raised = Some e"
    from step_dispatch_facts(6) [OF d r]
    have a: "\<not> is_Exception e" "last_report tr_d = Some e" by simp_all
    then have ne: "tr_d \<noteq> []" by auto
    have "tr = (Now t0 # PopPending (t0 + resolution (clock W)) early # NextEvent ne # pre
            @ [Select w io, Now t1]) @ tr_d"
      by (simp add: eq)
    then have "last_report tr = last_report tr_d"
      using last_report_append [OF ne] by metis
    with a show ?thesis by simp
  qed
qed

text \<open>
  C7. A callback that raises has its exception reported to the handler; the exception
  leaves \<open>_invoke_callback_within_context\<close> exactly when it is not an \<open>Exception\<close>.
  An exception that leaves a step is never an \<open>Exception\<close> and is the one reported
  last, at the very end of the trace (nothing runs after it); conversely every
  non-\<open>Exception\<close> that was reported in a step leaves the step. An exception that
  leaves a step leaves \<open>run\<close>, at whatever step it arises, given fuel for that step.
\<close>

theorem non_exception_leaves_step_and_run:
  "(prog E target xs (V\<lparr>current_context := (current_context V)\<lparr>running_loop := Some (loop_id E)\<rparr>\<rparr>)
      = (Some err, V') \<longrightarrow>
      fst (invoke_callback_within_context E target xs kw V) =
        [Call target xs ((current_context V)\<lparr>running_loop := Some (loop_id E)\<rparr>),
         Report err target kw]
      \<and> fst (snd (invoke_callback_within_context E target xs kw V)) =
          (if is_Exception err then None else Some err))
   \<and> (run_step E W = (tr, raised, W') \<longrightarrow>
        (\<forall>x. raised = Some x \<longrightarrow> \<not> is_Exception x \<and> last_report tr = Some x)
        \<and> (\<forall>x c k. (x, c, k) \<in> set (reports tr) \<and> \<not> is_Exception x \<longrightarrow> raised = Some x))
   \<and> (run_steps E n W0 = (trs, Pending, W) \<and> run_step E W = (tr, Some e, W') \<longrightarrow>
        run_steps E (n + Suc fuel) W0 = (trs @ [tr], Raised e, W'))
   \<and> (run E n W0 = (trs, Pending, W) \<and> run_step E W = (tr, Some e, W') \<longrightarrow>
        run E (n + Suc fuel) W0 = (trs @ [tr], Raised e, W'))"
proof (intro conjI impI)
  assume "prog E target xs (V\<lparr>current_context := (current_context V)\<lparr>running_loop := Some (loop_id E)\<rparr>\<rparr>)
      = (Some err, V')"
  then show "fst (invoke_callback_within_context E target xs kw V) =
        [Call target xs ((current_context V)\<lparr>running_loop := Some (loop_id E)\<rparr>),
         Report err target kw]"
    and "fst (snd (invoke_callback_within_context E target xs kw V)) =
          (if is_Exception err then None else Some err)"
    by (simp_all add: invoke_callback_within_context_def Let_def)
next
  assume "run_step E W = (tr, raised, W')"
  then show "\<forall>x. raised = Some x \<longrightarrow> \<not> is_Exception x \<and> last_report tr = Some x"
    and "\<forall>x c k. (x, c, k) \<in> set (reports tr) \<and> \<not> is_Exception x \<longrightarrow> raised = Some x"
    using run_step_raised by blast+
next
  assume "run_steps E n W0 = (trs, Pending, W) \<and> run_step E W = (tr, Some e, W')"
  then show "run_steps E (n + Suc fuel) W0 = (trs @ [tr], Raised e, W')"
    using run_steps_raise by blast
next
  assume "run E n W0 = (trs, Pending, W) \<and> run_step E W = (tr, Some e, W')"
  then show "run E (n + Suc fuel) W0 = (trs @ [tr], Raised e, W')"
    unfolding run_def using run_steps_raise by blast
qed

theorem non_exception_leaves_step_and_run_witness:
  "ex_prog 4 [] (ex_world_interrupt\<lparr>current_context :=
       (current_context ex_world_interrupt)\<lparr>running_loop := Some 7\<rparr>\<rparr>)
     = (Some KeyboardCanceled, ex_world_interrupt\<lparr>current_context :=
       (current_context ex_world_interrupt)\<lparr>running_loop := Some 7\<rparr>\<rparr>)
   \<and> fst (snd (invoke_callback_within_context ex_env 4 [] [] ex_world_interrupt))
       = Some KeyboardCanceled
   \<and> run_step ex_env ex_world_interrupt =
       (fst (run_step ex_env ex_world_interrupt), Some KeyboardCanceled,
        snd (snd (run_step ex_env ex_world_interrupt)))
   \<and> reports (fst (run_step ex_env ex_world_interrupt)) = [(KeyboardCanceled, 4, [])]
   \<and> last_report (fst (run_step ex_env ex_world_interrupt)) = Some KeyboardCanceled
   \<and> dispatched (fst (run_step ex_env ex_world_interrupt)) = [Timer 0]
   \<and> run_steps ex_env 0 ex_world_interrupt = ([], Pending, ex_world_interrupt)
   \<and> run ex_env 0 ex_world_interrupt = ([], Pending, ex_world_interrupt)
   \<and> fst (snd (run ex_env 3 ex_world_interrupt)) = Raised KeyboardCanceled"
  using non_exception_leaves_step_and_run
    [where E = ex_env and target = 4 and xs = "[]" and kw = "[]" and V = ex_world_interrupt
       and V' = "ex_world_interrupt\<lparr>current_context :=
                   (current_context ex_world_interrupt)\<lparr>running_loop := Some 7\<rparr>\<rparr>"
       and err = KeyboardCanceled and W = ex_world_interrupt
       and tr = "fst (run_step ex_env ex_world_interrupt)" and raised = "Some KeyboardCanceled"
       and W' = "snd (snd (run_step ex_env ex_world_interrupt))"
       and n = 0 and ?W0.0 = ex_world_interrupt and trs = "[]" and e = KeyboardCanceled
       and fuel = 2]
  by (simp add: step_defs ex_defs run_def)

section \<open>The context callbacks run in\<close>





section \<open>call_soon from inside a callback\<close>

text \<open>
  C3 fails on the code. The handle at address 0 is due at the start of the step; its
  callback (callable 3) calls \<open>call_soon\<close> with callable 2, which allocates the
  handle at address 1, not there before the step. The late batch is popped after the
  early callbacks have run, a handle without deadline is always due, so the new handle
  is in the late batch of the same step and callable 2 is called in that step.
\<close>

theorem call_soon_target_runs_in_same_step:
  "next_ref ex_world_soon = 1
   \<and> callback (heap ex_world_soon 0) = 3
   \<and> fst (ex_prog 3 [] ex_world_soon) = None
   \<and> snd (ex_prog 3 [] ex_world_soon) = snd (call_soon 2 [] None ex_world_soon)
   \<and> fst (call_soon 2 [] None ex_world_soon) = 1
   \<and> pops (fst (run_step ex_env ex_world_soon)) = [(201 / 2, [0]), (207 / 2, [1])]
   \<and> dispatched (fst (run_step ex_env ex_world_soon)) = [Timer 0, Timer 1]
   \<and> calls (fst (run_step ex_env ex_world_soon)) = [(3, []), (2, [])]
   \<and> fst (snd (run_step ex_env ex_world_soon)) = None"
  by (simp add: step_defs ex_defs)

section \<open>A callback that raises an Exception\<close>

lemma reports_Cons_mono: "r \<in> set (reports tr) \<Longrightarrow> r \<in> set (reports (x # tr))"
  by (cases x) auto

lemma last_report_in_reports:
  "last_report tr = Some e \<Longrightarrow> \<exists>c kw. (e, c, kw) \<in> set (reports tr)"
  by (induction tr rule: last_report.induct) (auto intro: reports_Cons_mono)

text \<open>
  Isolation of callbacks: an \<open>Exception\<close> raised by a callback is reported once,
  with the callback and the keyword arguments that the dispatching loop passes, and does
  not leave the call; a step in which only \<open>Exception\<close>s were reported is left by no
  exception, so that by the order of dispatch above every target of its batches was
  dispatched.
\<close>

lemma exception_of_callback_is_isolated:
  "(prog E target xs (V\<lparr>current_context := (current_context V)\<lparr>running_loop := Some (loop_id E)\<rparr>\<rparr>)
      = (Some err, V') \<and> is_Exception err \<longrightarrow>
      reports (fst (invoke_callback_within_context E target xs kw V)) = [(err, target, kw)]
      \<and> fst (snd (invoke_callback_within_context E target xs kw V)) = None)
   \<and> (run_step E W = (tr, raised, W') \<and> list_all (\<lambda>r. is_Exception (fst r)) (reports tr)
        \<longrightarrow> raised = None)"
proof (intro conjI impI)
  assume "prog E target xs (V\<lparr>current_context := (current_context V)\<lparr>running_loop := Some (loop_id E)\<rparr>\<rparr>)
      = (Some err, V') \<and> is_Exception err"
  then show "reports (fst (invoke_callback_within_context E target xs kw V)) = [(err, target, kw)]"
    and "fst (snd (invoke_callback_within_context E target xs kw V)) = None"
    by (simp_all add: invoke_callback_within_context_def Let_def)
next
  assume a: "run_step E W = (tr, raised, W') \<and> list_all (\<lambda>r. is_Exception (fst r)) (reports tr)"
  show "raised = None"
  proof (cases raised)
    case None
    then show ?thesis .
  next
    case (Some x)
    with a run_step_raised(1) [of E W tr raised W' x]
    have "\<not> is_Exception x" "last_report tr = Some x" by simp_all
    with last_report_in_reports [of tr x] a show ?thesis
      by (auto simp: list_all_iff)
  qed
qed

text \<open>
  C6 fails on the code in what the handler is given. The handle at address 0 was made
  by \<open>call_soon\<close> with the user context \<open>{task: t1}\<close>; its callback raises an
  \<open>Exception\<close>. The handler is called once, with the callback and with no keyword
  argument: \<open>_invoke_handle\<close> passes none, and the \<open>context\<close> of the handle is not
  read. The next handle of the step is still invoked and no exception leaves the step.
\<close>

theorem handler_gets_no_user_context:
  "context (heap ex_world_raise 0) = [(''task'', PStr ''t1'')]
   \<and> callback (heap ex_world_raise 0) = 1
   \<and> fst (ex_prog 1 [] ex_world_raise) = Some (Exception ''boom'')
   \<and> reports (fst (run_step ex_env ex_world_raise)) = [(Exception ''boom'', 1, [])]
   \<and> dispatched (fst (run_step ex_env ex_world_raise)) = [Timer 0, Timer 1]
   \<and> calls (fst (run_step ex_env ex_world_raise)) = [(1, []), (2, [])]
   \<and> fst (snd (run_step ex_env ex_world_raise)) = None"
  by (simp add: step_defs ex_defs)

section \<open>create_networking\<close>

lemma enter_times_cached:
  "cached_networking W = Some n \<Longrightarrow> enter_times E k W = (replicate k (n, Cached), W)"
  by (induction k) (simp_all add: create_networking_enter_def)

text \<open>
  C4, as the code has it. A scope entered while nothing is cached calls the factory and
  caches the instance; a scope entered while an instance is cached gets that instance,
  calls no factory and changes nothing, and leaving such a scope changes nothing. So of
  any number of scopes entered in a row from an empty cache, the first creates the
  instance and all the others are handed the same one, the factory having been called
  once. Leaving the scope that created the instance clears the cache before the
  factory's context manager is left.
\<close>

theorem create_networking_scoped_cache:
  "(cached_networking W = None \<longrightarrow>
      create_networking_enter E W =
        ((fst (networking_factory E W), Created),
         (snd (networking_factory E W))\<lparr>cached_networking := Some (fst (networking_factory E W))\<rparr>)
      \<and> enter_times E (Suc k) W =
          ((fst (networking_factory E W), Created)
             # replicate k (fst (networking_factory E W), Cached),
           (snd (networking_factory E W))\<lparr>cached_networking := Some (fst (networking_factory E W))\<rparr>))
   \<and> (cached_networking W = Some n \<longrightarrow> create_networking_enter E W = ((n, Cached), W))
   \<and> create_networking_exit E (n, Cached) W = W
   \<and> create_networking_exit E (n, Created) W
       = networking_exit E n (W\<lparr>cached_networking := None\<rparr>)"
proof -
  have "enter_times E (Suc k) W =
          ((fst (networking_factory E W), Created)
             # replicate k (fst (networking_factory E W), Cached),
           (snd (networking_factory E W))\<lparr>cached_networking := Some (fst (networking_factory E W))\<rparr>)"
    if "cached_networking W = None"
    using that
      enter_times_cached [of "(snd (networking_factory E W))\<lparr>cached_networking :=
                                 Some (fst (networking_factory E W))\<rparr>"
                             "fst (networking_factory E W)" E k]
    by (cases "networking_factory E W") (simp add: create_networking_enter_def)
  then show ?thesis
    by (simp add: create_networking_enter_def create_networking_exit_def split: prod.splits)
qed

theorem create_networking_scoped_cache_witness:
  "cached_networking ex_world = None
   \<and> create_networking_enter ex_env ex_world
       = ((0, Created), ex_world\<lparr>next_ref := 1, cached_networking := Some 0\<rparr>)
   \<and> fst (enter_times ex_env 3 ex_world) = [(0, Created), (0, Cached), (0, Cached)]
   \<and> cached_networking (snd (create_networking_enter ex_env ex_world)) = Some 0
   \<and> fst (create_networking_enter ex_env (snd (create_networking_enter ex_env ex_world)))
       = (0, Cached)
   \<and> cached_networking (create_networking_exit ex_env (0, Created)
        (snd (create_networking_enter ex_env ex_world))) = None"
  using create_networking_scoped_cache [of ex_world ex_env 2 0]
    create_networking_scoped_cache
      [of "snd (create_networking_enter ex_env ex_world)" ex_env 2 0]
  by (simp add: ex_defs create_networking_enter_def create_networking_exit_def
        numeral_3_eq_3)

text \<open>
  C4 as worded fails: the instance does not live as long as the loop. The first scope
  creates instance 0; once that scope is left, the next scope of the same loop calls the
  factory again and gets instance 1.
\<close>

theorem create_networking_after_exit_creates_anew:
  "fst (create_networking_enter ex_env ex_world) = (0, Created)
   \<and> fst (create_networking_enter ex_env
        (create_networking_exit ex_env (fst (create_networking_enter ex_env ex_world))
           (snd (create_networking_enter ex_env ex_world)))) = (1, Created)"
  by (simp add: ex_defs create_networking_enter_def create_networking_exit_def)

end
